theory Spec2Isabelle
  imports Complex_Main "HOL-Library.Multiset"
begin

section \<open>Arrays, references and the random source\<close>

text \<open>
  The script works on JavaScript arrays, which are objects handled by reference: the three
  seed templates are global arrays, \<^verbatim>\<open>fisherYatesShuffle\<close> writes into the array it is
  given, and \<^verbatim>\<open>riffleShuffle\<close> first copies its argument. The store below maps
  references to array contents; \<open>next_ref\<close> is the next unused reference, so that a
  freshly created array never aliases an existing one.
\<close>

type_synonym ref = nat

record heap =
  cells :: "ref \<Rightarrow> int list"
  next_ref :: ref

definition alloc :: "heap \<Rightarrow> int list \<Rightarrow> heap \<times> ref" where
  "alloc h xs =
     (h\<lparr>cells := (cells h)(next_ref h := xs), next_ref := Suc (next_ref h)\<rparr>, next_ref h)"

text \<open>
  \<^verbatim>\<open>Math.random()\<close> is a stream of numbers in \<open>[0, 1)\<close>; the \<open>k\<close>-th call returns
  \<open>rs k\<close>, and every function that draws returns the number of draws made so far.
  The numbers are taken as reals: the rounding of the product in
  \<^verbatim>\<open>Math.floor(Math.random() * n)\<close> is not modelled.
\<close>

type_synonym draws = "nat \<Rightarrow> real"

definition valid_draws :: "draws \<Rightarrow> bool" where
  "valid_draws rs \<longleftrightarrow> (\<forall>k. 0 \<le> rs k \<and> rs k < 1)"

definition const_draws :: "real \<Rightarrow> draws" where
  "const_draws c k = c"

text \<open>\<^verbatim>\<open>Math.floor(r * n)\<close> for a draw \<open>r\<close> and an integer bound \<open>n\<close>.\<close>

definition floor_random :: "real \<Rightarrow> int \<Rightarrow> int" where
  "floor_random r n = \<lfloor>r * of_int n\<rfloor>"

section \<open>Array.prototype.splice\<close>

text \<open>
  \<^verbatim>\<open>splice(start, deleteCount, ...items)\<close> as ECMAScript defines it: a negative \<open>start\<close>
  counts from the end, \<open>start\<close> is limited to \<open>[0, len]\<close> and \<open>deleteCount\<close> to
  \<open>[0, len - start]\<close>. A fractional argument is first truncated towards zero
  (\<^verbatim>\<open>ToIntegerOrInfinity\<close>).
\<close>

definition toIntegerOrInfinity :: "real \<Rightarrow> int" where
  "toIntegerOrInfinity x = (if x < 0 then \<lceil>x\<rceil> else \<lfloor>x\<rfloor>)"

definition actualStart :: "nat \<Rightarrow> int \<Rightarrow> nat" where
  "actualStart len start =
     (if start < 0 then nat (max (int len + start) 0) else nat (min start (int len)))"

definition actualDeleteCount :: "nat \<Rightarrow> nat \<Rightarrow> int \<Rightarrow> nat" where
  "actualDeleteCount len from deleteCount =
     nat (min (max deleteCount 0) (int len - int from))"

text \<open>The removed elements, and the array's contents afterwards.\<close>

definition splice_list :: "int list \<Rightarrow> int \<Rightarrow> int \<Rightarrow> int list \<Rightarrow> int list \<times> int list" where
  "splice_list xs start deleteCount items =
     (let from = actualStart (length xs) start;
          d = actualDeleteCount (length xs) from deleteCount
      in (take d (drop from xs), take from xs @ items @ drop (from + d) xs))"

text \<open>On the store: the array is changed in place and the removed elements are returned
  as a new array.\<close>

definition splice :: "heap \<Rightarrow> ref \<Rightarrow> int \<Rightarrow> int \<Rightarrow> int list \<Rightarrow> heap \<times> ref" where
  "splice h a start deleteCount items =
     (case splice_list (cells h a) start deleteCount items of
        (removed, rest) \<Rightarrow> alloc (h\<lparr>cells := (cells h)(a := rest)\<rparr>) removed)"

section \<open>riffleShuffle\<close>

text \<open>
  \<^verbatim>\<open>const cutDeckVariant = deck.length / 2 + Math.floor(Math.random() * 9) - splitError;\<close>
  The division is JavaScript's: for an odd length the value ends in \<open>.5\<close>.
\<close>

definition cutDeckVariant :: "nat \<Rightarrow> real \<Rightarrow> int \<Rightarrow> real" where
  "cutDeckVariant len r splitError =
     real len / 2 + of_int (floor_random r 9) - of_int splitError"

text \<open>The variables of the \<^verbatim>\<open>while\<close> loop: the store (holding \<^verbatim>\<open>deck\<close> and
  \<^verbatim>\<open>leftHalf\<close>), the two counters and the number of draws made.\<close>

record interleave_state =
  hp :: heap
  leftCount :: int
  rightCount :: int
  drawn :: nat

text \<open>
  One pass through the loop body:
  \<^verbatim>\<open>
  const takeAmount = Math.floor(Math.random() * packetError);
  deck.splice(rightCount, 0, ...leftHalf.splice(leftCount, takeAmount));
  leftCount -= takeAmount;
  rightCount = rightCount - Math.floor(Math.random() * packetError) + takeAmount;
  \<close>
\<close>

definition interleave_step :: "ref \<Rightarrow> ref \<Rightarrow> int \<Rightarrow> draws \<Rightarrow> interleave_state \<Rightarrow> interleave_state" where
  "interleave_step deck leftHalf packetError rs st =
     (let takeAmount = floor_random (rs (drawn st)) packetError;
          (h1, packet) = splice (hp st) leftHalf (leftCount st) takeAmount [];
          (h2, discarded) = splice h1 deck (rightCount st) 0 (cells h1 packet)
      in \<lparr>hp = h2,
          leftCount = leftCount st - takeAmount,
          rightCount = rightCount st - floor_random (rs (drawn st + 1)) packetError + takeAmount,
          drawn = drawn st + 2\<rparr>)"

text \<open>\<^verbatim>\<open>while (leftCount > 0) { ... }\<close>: the loop need not terminate, and then the result
  is \<open>None\<close>.\<close>

partial_function (option) interleave ::
  "ref \<Rightarrow> ref \<Rightarrow> int \<Rightarrow> draws \<Rightarrow> interleave_state \<Rightarrow> interleave_state option" where
  "interleave deck leftHalf packetError rs st =
     (if leftCount st > 0
      then interleave deck leftHalf packetError rs (interleave_step deck leftHalf packetError rs st)
      else Some st)"

declare interleave.simps [code]

text \<open>The split, before the loop: the left half is cut off the front of \<^verbatim>\<open>deck\<close>, which
  keeps the right remainder.\<close>

definition split_deck :: "ref \<Rightarrow> int \<Rightarrow> draws \<Rightarrow> heap \<times> nat \<Rightarrow> ref \<times> interleave_state" where
  "split_deck deck splitError rs hk =
     (case hk of (h, k) \<Rightarrow>
        (case splice h deck 0
                (toIntegerOrInfinity (cutDeckVariant (length (cells h deck)) (rs k) splitError)) []
         of (h1, leftHalf) \<Rightarrow>
           (leftHalf,
            \<lparr>hp = h1,
             leftCount = int (length (cells h1 leftHalf)),
             rightCount = int (length (cells h1 deck)) - floor_random (rs (k + 1)) splitError,
             drawn = k + 2\<rparr>)))"

text \<open>After the loop: \<^verbatim>\<open>deck.splice(rightCount, 0, ...leftHalf);\<close>\<close>

definition flush :: "ref \<Rightarrow> ref \<Rightarrow> interleave_state \<Rightarrow> heap \<times> nat" where
  "flush deck leftHalf st =
     (fst (splice (hp st) deck (rightCount st) 0 (cells (hp st) leftHalf)), drawn st)"

text \<open>One pass through the body of the \<^verbatim>\<open>for\<close> loop.\<close>

definition riffle_repetition ::
  "ref \<Rightarrow> int \<Rightarrow> int \<Rightarrow> draws \<Rightarrow> heap \<times> nat \<Rightarrow> (heap \<times> nat) option" where
  "riffle_repetition deck splitError packetError rs hk =
     (case split_deck deck splitError rs hk of
        (leftHalf, st) \<Rightarrow>
          (case interleave deck leftHalf packetError rs st of
             None \<Rightarrow> None
           | Some st' \<Rightarrow> Some (flush deck leftHalf st')))"

text \<open>\<^verbatim>\<open>for (let i = 0; i < repetitions; i++) { ... }\<close>, by the number of passes left.\<close>

fun riffle_repetitions ::
  "nat \<Rightarrow> ref \<Rightarrow> int \<Rightarrow> int \<Rightarrow> draws \<Rightarrow> heap \<times> nat \<Rightarrow> (heap \<times> nat) option" where
  "riffle_repetitions 0 deck splitError packetError rs hk = Some hk"
| "riffle_repetitions (Suc n) deck splitError packetError rs hk =
     (case riffle_repetition deck splitError packetError rs hk of
        None \<Rightarrow> None
      | Some hk' \<Rightarrow> riffle_repetitions n deck splitError packetError rs hk')"

text \<open>
  \<^verbatim>\<open>let deck = [...deckInput]; for ... ; return deck;\<close>
  The result is the store, the reference of the returned array and the number of draws.
  \<open>splitError\<close> and \<open>packetError\<close> are integers (the script passes \<open>4\<close> and \<open>4\<close>),
  \<open>repetitions\<close> is a count.
\<close>

definition riffleShuffle ::
  "heap \<Rightarrow> ref \<Rightarrow> nat \<Rightarrow> int \<Rightarrow> int \<Rightarrow> draws \<Rightarrow> nat \<Rightarrow> (heap \<times> ref \<times> nat) option" where
  "riffleShuffle h deckInput repetitions splitError packetError rs k =
     (case alloc h (cells h deckInput) of
        (h0, deck) \<Rightarrow>
          (case riffle_repetitions repetitions deck splitError packetError rs (h0, k) of
             None \<Rightarrow> None
           | Some (h', k') \<Rightarrow> Some (h', deck, k')))"

section \<open>fisherYatesShuffle\<close>

text \<open>
  \<^verbatim>\<open>
  for (let i = array.length - 1; i > 0; i--) {
      const j = Math.floor(Math.random() * (i + 1));
      [array[i], array[j]] = [array[j], array[i]];
  }
  return array;
  \<close>
  The loop is written by its counter \<open>i\<close>; for an empty array the counter starts at
  \<open>-1\<close> and the loop does not run, as for \<open>0\<close>. With a draw in \<open>[0, 1)\<close> the index
  \<open>j\<close> lies in \<open>[0, i]\<close>, so both writes are inside the array.
\<close>

fun fisherYates_loop :: "ref \<Rightarrow> draws \<Rightarrow> nat \<Rightarrow> heap \<times> nat \<Rightarrow> heap \<times> nat" where
  "fisherYates_loop array rs 0 hk = hk"
| "fisherYates_loop array rs (Suc n) hk =
     (case hk of (h, k) \<Rightarrow>
        (let i = Suc n;
             j = nat (floor_random (rs k) (int i + 1));
             xs = cells h array
         in fisherYates_loop array rs n
              (h\<lparr>cells := (cells h)(array := xs[i := xs ! j, j := xs ! i])\<rparr>, k + 1)))"

definition fisherYatesShuffle :: "heap \<Rightarrow> ref \<Rightarrow> draws \<Rightarrow> nat \<Rightarrow> heap \<times> ref \<times> nat" where
  "fisherYatesShuffle h array rs k =
     (case fisherYates_loop array rs (length (cells h array) - 1) (h, k) of
        (h', k') \<Rightarrow> (h', array, k'))"

section \<open>calculateAverageDistance\<close>

text \<open>
  The loop over \<open>i\<close> with its three variables
  \<open>(distanceSum, count, lastOneIndex)\<close>, then
  \<^verbatim>\<open>return count > 0 ? distanceSum / count : 0;\<close>
  The variable \<open>count\<close> is written \<open>cnt\<close>. The division is reached with a positive
  \<open>count\<close> only; the quotient is the exact one, the rounding to a double is not modelled.
\<close>

function cad_loop :: "int list \<Rightarrow> nat \<Rightarrow> int \<times> int \<times> int \<Rightarrow> int \<times> int \<times> int" where
  "cad_loop array i (distanceSum, cnt, lastOneIndex) =
     (if i < length array then
        (if array ! i = 1 then
           (if lastOneIndex \<noteq> - 1
            then cad_loop array (i + 1) (distanceSum + (int i - lastOneIndex - 1), cnt + 1, int i)
            else cad_loop array (i + 1) (distanceSum, cnt, int i))
         else cad_loop array (i + 1) (distanceSum, cnt, lastOneIndex))
      else (distanceSum, cnt, lastOneIndex))"
  by pat_completeness auto
termination
  by (relation "measure (\<lambda>(array, i, s). length array - i)") auto

declare cad_loop.simps [simp del]

definition calculateAverageDistance :: "int list \<Rightarrow> real" where
  "calculateAverageDistance array =
     (case cad_loop array 0 (0, 0, - 1) of
        (distanceSum, cnt, lastOneIndex) \<Rightarrow>
          if cnt > 0 then real_of_int distanceSum / real_of_int cnt else 0)"

section \<open>The simulation loops\<close>

definition REPETITIONS :: nat where "REPETITIONS = 7"
definition SPLIT_ERROR :: int where "SPLIT_ERROR = 4"
definition PACKET_ERROR :: int where "PACKET_ERROR = 4"

text \<open>The three global arrays, in the order of their declaration.\<close>

definition bottomStacked :: ref where "bottomStacked = 0"
definition piled :: ref where "piled = 1"
definition unordered :: ref where "unordered = 2"

definition initial_heap :: heap where
  "initial_heap =
     \<lparr>cells = (\<lambda>r. [])
        (bottomStacked :=
           [0, 0, 0, 0, 0, 0, 0, 0, 0, 0, 0, 0, 0, 0, 0, 0, 0, 0, 0, 0, 0, 0, 0, 0, 0,
            0, 0, 0, 0, 0, 0, 0, 0, 0, 0, 0, 0, 0, 0, 0, 0, 0, 1, 1, 1, 1, 1, 1, 1, 1],
         piled :=
           [0, 0, 0, 0, 0, 1, 0, 0, 0, 0, 0, 1, 0, 0, 0, 0, 0, 1, 0, 0, 0, 0, 0, 1, 0,
            0, 0, 0, 0, 1, 0, 0, 0, 0, 0, 1, 0, 0, 0, 0, 0, 0, 1, 0, 0, 0, 0, 0, 0, 1],
         unordered :=
           [0, 0, 0, 0, 0, 1, 0, 0, 0, 0, 1, 0, 0, 0, 0, 1, 0, 1, 0, 1, 0, 0, 0, 0, 1,
            0, 0, 0, 0, 0, 0, 0, 0, 0, 0, 0, 0, 0, 0, 0, 0, 1, 1, 0, 0, 0, 0, 0, 0, 0]),
      next_ref = 3\<rparr>"

text \<open>
  The state of a simulation loop: the store, the number of draws made, and the array of
  shuffled decks pushed so far. The number of trials (\<^verbatim>\<open>SIM_COUNT\<close>, 300000 in the
  script) is a parameter.
  \<^verbatim>\<open>
  for (let i = 0; i < SIM_COUNT; i++) {
      let randomizedUnordered = fisherYatesShuffle(unordered);
      unorderedShuffledArrays.push(riffleShuffle(randomizedUnordered, REPETITIONS, SPLIT_ERROR, PACKET_ERROR));
  }
  \<close>
\<close>

type_synonym sim_state = "heap \<times> nat \<times> ref list"

definition unordered_trial :: "draws \<Rightarrow> sim_state \<Rightarrow> sim_state option" where
  "unordered_trial rs s =
     (case s of (h, k, shuffledArrays) \<Rightarrow>
        (case fisherYatesShuffle h unordered rs k of
           (h1, randomizedUnordered, k1) \<Rightarrow>
             (case riffleShuffle h1 randomizedUnordered REPETITIONS SPLIT_ERROR PACKET_ERROR rs k1 of
                None \<Rightarrow> None
              | Some (h2, shuffled, k2) \<Rightarrow> Some (h2, k2, shuffledArrays @ [shuffled]))))"

fun simulate_unordered :: "nat \<Rightarrow> draws \<Rightarrow> sim_state \<Rightarrow> sim_state option" where
  "simulate_unordered 0 rs s = Some s"
| "simulate_unordered (Suc n) rs s =
     (case unordered_trial rs s of
        None \<Rightarrow> None
      | Some s' \<Rightarrow> simulate_unordered n rs s')"

text \<open>
  The loops for the two fixed seeds have one shape, with the template passed directly:
  \<^verbatim>\<open>bottomStackedShuffledArrays.push(riffleShuffle(bottomStacked, REPETITIONS, SPLIT_ERROR, PACKET_ERROR));\<close>
\<close>

definition fixed_trial :: "ref \<Rightarrow> draws \<Rightarrow> sim_state \<Rightarrow> sim_state option" where
  "fixed_trial template rs s =
     (case s of (h, k, shuffledArrays) \<Rightarrow>
        (case riffleShuffle h template REPETITIONS SPLIT_ERROR PACKET_ERROR rs k of
           None \<Rightarrow> None
         | Some (h2, shuffled, k2) \<Rightarrow> Some (h2, k2, shuffledArrays @ [shuffled])))"

fun simulate_fixed :: "nat \<Rightarrow> ref \<Rightarrow> draws \<Rightarrow> sim_state \<Rightarrow> sim_state option" where
  "simulate_fixed 0 template rs s = Some s"
| "simulate_fixed (Suc n) template rs s =
     (case fixed_trial template rs s of
        None \<Rightarrow> None
      | Some s' \<Rightarrow> simulate_fixed n template rs s')"


section \<open>The distance metric as the specification words it\<close>

text \<open>
  The positions of the marked cards in deck order; the gap between two consecutive marked
  positions is \<open>currentIndex - previousIndex - 1\<close>; the average distance is the sum of the
  gaps divided by their number, and \<open>0\<close> when there is no gap.
\<close>

definition gaps_of :: "int list \<Rightarrow> int list" where
  "gaps_of ps = map (\<lambda>(previousIndex, currentIndex). currentIndex - previousIndex - 1) (zip ps (tl ps))"

definition marked_positions :: "int list \<Rightarrow> nat list" where
  "marked_positions deck = filter (\<lambda>i. deck ! i = 1) [0..<length deck]"

definition averageDistance_spec :: "int list \<Rightarrow> real" where
  "averageDistance_spec deck =
     (let gaps = gaps_of (map int (marked_positions deck))
      in if gaps = [] then 0 else real_of_int (sum_list gaps) / real (length gaps))"

section \<open>The Fisher-Yates shuffle as the specification words it\<close>

text \<open>
  Iterate the positions from the last index down to index \<open>1\<close>; at each index \<open>i\<close>
  exchange the elements at \<open>i\<close> and at the index \<open>pick i\<close> chosen for it.
  \<open>drawn_index rs k len i\<close> is the index the code draws for position \<open>i\<close> when it
  starts at draw \<open>k\<close> on an array of \<open>len\<close> elements.
\<close>

definition exchange :: "int list \<Rightarrow> nat \<Rightarrow> nat \<Rightarrow> int list" where
  "exchange xs i j = xs[i := xs ! j, j := xs ! i]"

definition fisherYates_spec :: "int list \<Rightarrow> (nat \<Rightarrow> nat) \<Rightarrow> int list" where
  "fisherYates_spec xs pick = foldl (\<lambda>ys i. exchange ys i (pick i)) xs (rev [1..<length xs])"

definition drawn_index :: "draws \<Rightarrow> nat \<Rightarrow> nat \<Rightarrow> nat \<Rightarrow> nat" where
  "drawn_index rs k len i = nat (floor_random (rs (k + (len - 1 - i))) (int i + 1))"

section \<open>Sample inputs\<close>

text \<open>Small stores and draw sequences on which the functions are evaluated below.\<close>

definition example_draws :: draws where
  "example_draws k = (if k = 0 then 2/5 else if k = 1 then 9/10 else if even k then 1/2 else 1/10)"

definition example_heap :: heap where
  "example_heap = \<lparr>cells = (\<lambda>r. [])(0 := [0, 0, 0, 0, 0, 1, 0, 0]), next_ref = 1\<rparr>"

definition two_card_heap :: heap where
  "two_card_heap = \<lparr>cells = (\<lambda>r. [])(0 := [1, 0]), next_ref = 1\<rparr>"

text \<open>
  A stream whose first three draws are small, so that with \<open>packetError = 4\<close> the first
  packet of the first repetition is empty, and a stream that is \<open>example_draws\<close> up to
  draw \<open>7\<close> and small from then on.
\<close>

definition slow_start_draws :: draws where
  "slow_start_draws k = (if k < 3 then 1/10 else 1/2)"


text \<open>The stream \<open>rs\<close> with its first draw replaced.\<close>

definition first_draw :: "real \<Rightarrow> draws \<Rightarrow> draws" where
  "first_draw r rs k = (if k = 0 then r else rs k)"

section \<open>Properties of splice and of the interleave loop\<close>

lemma splice_list_mset:
  "mset (fst (splice_list xs start deleteCount items)) + mset (snd (splice_list xs start deleteCount items))
     = mset xs + mset items"
proof -
  define f where "f = actualStart (length xs) start"
  define d where "d = actualDeleteCount (length xs) f deleteCount"
  have "xs = take f xs @ take d (drop f xs) @ drop (f + d) xs"
    by (metis add.commute append_take_drop_id drop_drop)
  then have "mset xs = mset (take f xs) + mset (take d (drop f xs)) + mset (drop (f + d) xs)"
    by (metis mset_append add.assoc)
  then show ?thesis
    by (simp add: splice_list_def Let_def f_def d_def)
qed

lemma splice_list_nothing_removed [simp]:
  "fst (splice_list xs start 0 items) = []"
  by (simp add: splice_list_def Let_def actualDeleteCount_def)

lemma splice_ref [simp]: "snd (splice h a start deleteCount items) = next_ref h"
  by (simp add: splice_def alloc_def split: prod.splits)

lemma splice_next_ref [simp]:
  "next_ref (fst (splice h a start deleteCount items)) = Suc (next_ref h)"
  by (simp add: splice_def alloc_def split: prod.splits)

lemma splice_cells_target:
  "a \<noteq> next_ref h \<Longrightarrow>
   cells (fst (splice h a start deleteCount items)) a = snd (splice_list (cells h a) start deleteCount items)"
  by (simp add: splice_def alloc_def split: prod.splits)

lemma splice_cells_removed:
  "cells (fst (splice h a start deleteCount items)) (next_ref h) =
     fst (splice_list (cells h a) start deleteCount items)"
  by (simp add: splice_def alloc_def split: prod.splits)

lemma splice_cells_other:
  "r \<noteq> a \<Longrightarrow> r \<noteq> next_ref h \<Longrightarrow> cells (fst (splice h a start deleteCount items)) r = cells h r"
  by (simp add: splice_def alloc_def split: prod.splits)

lemma interleave_step_unfold:
  "interleave_step deck leftHalf packetError rs st =
     \<lparr>hp = fst (splice (fst (splice (hp st) leftHalf (leftCount st)
                               (floor_random (rs (drawn st)) packetError) []))
                   deck (rightCount st) 0
                   (fst (splice_list (cells (hp st) leftHalf) (leftCount st)
                          (floor_random (rs (drawn st)) packetError) []))),
      leftCount = leftCount st - floor_random (rs (drawn st)) packetError,
      rightCount = rightCount st - floor_random (rs (drawn st + 1)) packetError
                     + floor_random (rs (drawn st)) packetError,
      drawn = drawn st + 2\<rparr>"
  by (simp add: interleave_step_def Let_def splice_cells_removed [symmetric] split: prod.splits)
     (metis fst_conv snd_conv splice_ref splice_cells_removed)


lemma step_counters [simp]:
  "leftCount (interleave_step deck leftHalf packetError rs st) =
     leftCount st - floor_random (rs (drawn st)) packetError"
  "rightCount (interleave_step deck leftHalf packetError rs st) =
     rightCount st - floor_random (rs (drawn st + 1)) packetError
       + floor_random (rs (drawn st)) packetError"
  "drawn (interleave_step deck leftHalf packetError rs st) = drawn st + 2"
  "next_ref (hp (interleave_step deck leftHalf packetError rs st)) = next_ref (hp st) + 2"
  by (simp_all add: interleave_step_unfold)

lemma step_cells_leftHalf:
  assumes "deck \<noteq> leftHalf" "deck < next_ref (hp st)" "leftHalf < next_ref (hp st)"
  shows "cells (hp (interleave_step deck leftHalf packetError rs st)) leftHalf =
           snd (splice_list (cells (hp st) leftHalf) (leftCount st)
                  (floor_random (rs (drawn st)) packetError) [])"
  using assms by (simp add: interleave_step_unfold splice_cells_other splice_cells_target)

lemma step_cells_deck:
  assumes "deck \<noteq> leftHalf" "deck < next_ref (hp st)" "leftHalf < next_ref (hp st)"
  shows "cells (hp (interleave_step deck leftHalf packetError rs st)) deck =
           snd (splice_list (cells (hp st) deck) (rightCount st) 0
                  (fst (splice_list (cells (hp st) leftHalf) (leftCount st)
                          (floor_random (rs (drawn st)) packetError) [])))"
  using assms by (simp add: interleave_step_unfold splice_cells_other splice_cells_target)

lemma step_cells_other:
  assumes "r \<noteq> deck" "r \<noteq> leftHalf" "r < next_ref (hp st)"
  shows "cells (hp (interleave_step deck leftHalf packetError rs st)) r = cells (hp st) r"
  using assms by (simp add: interleave_step_unfold splice_cells_other)

lemma step_mset:
  assumes "deck \<noteq> leftHalf" "deck < next_ref (hp st)" "leftHalf < next_ref (hp st)"
  shows "mset (cells (hp (interleave_step deck leftHalf packetError rs st)) deck) +
         mset (cells (hp (interleave_step deck leftHalf packetError rs st)) leftHalf) =
         mset (cells (hp st) deck) + mset (cells (hp st) leftHalf)"
proof -
  let ?take = "floor_random (rs (drawn st)) packetError"
  let ?packet = "fst (splice_list (cells (hp st) leftHalf) (leftCount st) ?take [])"
  have "mset (snd (splice_list (cells (hp st) deck) (rightCount st) 0 ?packet)) =
          mset (cells (hp st) deck) + mset ?packet"
    using splice_list_mset [of "cells (hp st) deck" "rightCount st" 0 ?packet] by simp
  moreover have "mset ?packet + mset (snd (splice_list (cells (hp st) leftHalf) (leftCount st) ?take []))
          = mset (cells (hp st) leftHalf)"
    using splice_list_mset [of "cells (hp st) leftHalf" "leftCount st" ?take "[]"] by simp
  ultimately show ?thesis
    by (simp add: step_cells_deck [OF assms] step_cells_leftHalf [OF assms] add.assoc)
qed

text \<open>The loop as iteration of its body.\<close>

lemma interleave_Some_iterate:
  assumes "interleave deck leftHalf packetError rs st = Some st'"
  shows "\<exists>n. st' = ((interleave_step deck leftHalf packetError rs) ^^ n) st \<and>
           \<not> 0 < leftCount st' \<and>
           (\<forall>i<n. 0 < leftCount (((interleave_step deck leftHalf packetError rs) ^^ i) st))"
proof (rule interleave.raw_induct [where P = "\<lambda>deck leftHalf packetError rs st st'.
     \<exists>n. st' = ((interleave_step deck leftHalf packetError rs) ^^ n) st \<and>
       \<not> 0 < leftCount st' \<and>
       (\<forall>i<n. 0 < leftCount (((interleave_step deck leftHalf packetError rs) ^^ i) st))", OF _ assms])
  fix loop deck leftHalf packetError rs st st'
  assume IH: "\<And>deck leftHalf packetError rs st st'.
        loop deck leftHalf packetError rs st = Some st' \<Longrightarrow>
        \<exists>n. st' = ((interleave_step deck leftHalf packetError rs) ^^ n) st \<and>
          \<not> 0 < leftCount st' \<and>
          (\<forall>i<n. 0 < leftCount (((interleave_step deck leftHalf packetError rs) ^^ i) st))"
    and body: "(if 0 < leftCount st
                then loop deck leftHalf packetError rs (interleave_step deck leftHalf packetError rs st)
                else Some st) = Some st'"
  let ?step = "interleave_step deck leftHalf packetError rs"
  show "\<exists>n. st' = (?step ^^ n) st \<and> \<not> 0 < leftCount st' \<and>
          (\<forall>i<n. 0 < leftCount ((?step ^^ i) st))"
  proof (cases "0 < leftCount st")
    case False
    with body have "st' = (?step ^^ 0) st" "\<not> 0 < leftCount st'" by simp_all
    then show ?thesis by (intro exI [of _ 0]) simp
  next
    case True
    with body have "loop deck leftHalf packetError rs (?step st) = Some st'" by simp
    from IH [OF this] obtain n where n: "st' = (?step ^^ n) (?step st)" "\<not> 0 < leftCount st'"
      "\<forall>i<n. 0 < leftCount ((?step ^^ i) (?step st))" by blast
    have "\<forall>i<Suc n. 0 < leftCount ((?step ^^ i) st)"
    proof (intro allI impI)
      fix i assume "i < Suc n"
      show "0 < leftCount ((?step ^^ i) st)"
      proof (cases i)
        case 0
        with True show ?thesis by simp
      next
        case (Suc j)
        with \<open>i < Suc n\<close> n(3) show ?thesis by (simp add: funpow_swap1)
      qed
    qed
    with n(1,2) show ?thesis
      by (intro exI [of _ "Suc n"]) (simp add: funpow_swap1)
  qed
qed

lemma interleave_iterate_Some:
  assumes "\<forall>i<n. 0 < leftCount (((interleave_step deck leftHalf packetError rs) ^^ i) st)"
    and "\<not> 0 < leftCount (((interleave_step deck leftHalf packetError rs) ^^ n) st)"
  shows "interleave deck leftHalf packetError rs st =
           Some (((interleave_step deck leftHalf packetError rs) ^^ n) st)"
  using assms
proof (induction n arbitrary: st)
  case 0
  then show ?case by (subst interleave.simps) simp
next
  case (Suc n)
  let ?step = "interleave_step deck leftHalf packetError rs"
  from Suc.prems(1) have first: "0 < leftCount st" by (auto dest: spec [of _ 0])
  have "\<forall>i<n. 0 < leftCount ((?step ^^ i) (?step st))"
  proof (intro allI impI)
    fix i assume "i < n"
    with Suc.prems(1) have "0 < leftCount ((?step ^^ Suc i) st)" by (auto dest!: spec [of _ "Suc i"])
    then show "0 < leftCount ((?step ^^ i) (?step st))" by (simp add: funpow_swap1)
  qed
  moreover from Suc.prems(2) have "\<not> 0 < leftCount ((?step ^^ n) (?step st))"
    by (simp add: funpow_swap1)
  ultimately have "interleave deck leftHalf packetError rs (?step st) = Some ((?step ^^ n) (?step st))"
    by (rule Suc.IH)
  with first show ?case
    by (subst interleave.simps) (simp add: funpow_swap1)
qed

lemma interleave_None:
  assumes "\<forall>n. 0 < leftCount (((interleave_step deck leftHalf packetError rs) ^^ n) st)"
  shows "interleave deck leftHalf packetError rs st = None"
proof (cases "interleave deck leftHalf packetError rs st")
  case None
  then show ?thesis .
next
  case (Some st')
  from interleave_Some_iterate [OF this] assms show ?thesis by blast
qed


lemma iterate_invariant:
  assumes "deck \<noteq> leftHalf" "deck < next_ref (hp st)" "leftHalf < next_ref (hp st)"
  shows "next_ref (hp (((interleave_step deck leftHalf packetError rs) ^^ n) st)) = next_ref (hp st) + 2 * n \<and>
         drawn (((interleave_step deck leftHalf packetError rs) ^^ n) st) = drawn st + 2 * n \<and>
         mset (cells (hp (((interleave_step deck leftHalf packetError rs) ^^ n) st)) deck) +
           mset (cells (hp (((interleave_step deck leftHalf packetError rs) ^^ n) st)) leftHalf) =
           mset (cells (hp st) deck) + mset (cells (hp st) leftHalf) \<and>
         (\<forall>r<next_ref (hp st). r \<noteq> deck \<longrightarrow> r \<noteq> leftHalf \<longrightarrow>
            cells (hp (((interleave_step deck leftHalf packetError rs) ^^ n) st)) r = cells (hp st) r)"
proof (induction n)
  case 0
  then show ?case by simp
next
  case (Suc n)
  let ?step = "interleave_step deck leftHalf packetError rs"
  let ?mid = "(?step ^^ n) st"
  from Suc have nxt: "next_ref (hp ?mid) = next_ref (hp st) + 2 * n"
    and drw: "drawn ?mid = drawn st + 2 * n"
    and ms: "mset (cells (hp ?mid) deck) + mset (cells (hp ?mid) leftHalf) =
               mset (cells (hp st) deck) + mset (cells (hp st) leftHalf)"
    and oth: "\<forall>r<next_ref (hp st). r \<noteq> deck \<longrightarrow> r \<noteq> leftHalf \<longrightarrow> cells (hp ?mid) r = cells (hp st) r"
    by blast+
  from assms nxt have valid: "deck < next_ref (hp ?mid)" "leftHalf < next_ref (hp ?mid)" by simp_all
  have "next_ref (hp (?step ?mid)) = next_ref (hp st) + 2 * Suc n" using nxt by simp
  moreover have "drawn (?step ?mid) = drawn st + 2 * Suc n" using drw by simp
  moreover have "mset (cells (hp (?step ?mid)) deck) + mset (cells (hp (?step ?mid)) leftHalf) =
                 mset (cells (hp st) deck) + mset (cells (hp st) leftHalf)"
    using step_mset [OF assms(1) valid] ms by simp
  moreover have "\<forall>r<next_ref (hp st). r \<noteq> deck \<longrightarrow> r \<noteq> leftHalf \<longrightarrow>
                   cells (hp (?step ?mid)) r = cells (hp st) r"
  proof (intro allI impI)
    fix r assume r: "r < next_ref (hp st)" "r \<noteq> deck" "r \<noteq> leftHalf"
    with nxt have "r < next_ref (hp ?mid)" by simp
    with r have "cells (hp (?step ?mid)) r = cells (hp ?mid) r" by (simp add: step_cells_other)
    with oth r show "cells (hp (?step ?mid)) r = cells (hp st) r" by simp
  qed
  ultimately show ?case by simp
qed

lemma split_deck_unfold:
  "split_deck deck splitError rs (h, k) =
     (next_ref h,
      \<lparr>hp = fst (splice h deck 0
                  (toIntegerOrInfinity (cutDeckVariant (length (cells h deck)) (rs k) splitError)) []),
       leftCount = int (length (cells (fst (splice h deck 0
                  (toIntegerOrInfinity (cutDeckVariant (length (cells h deck)) (rs k) splitError)) []))
                  (next_ref h))),
       rightCount = int (length (cells (fst (splice h deck 0
                  (toIntegerOrInfinity (cutDeckVariant (length (cells h deck)) (rs k) splitError)) []))
                  deck)) - floor_random (rs (k + 1)) splitError,
       drawn = k + 2\<rparr>)"
proof -
  obtain h1 leftHalf where sp: "splice h deck 0
      (toIntegerOrInfinity (cutDeckVariant (length (cells h deck)) (rs k) splitError)) [] = (h1, leftHalf)"
    by (cases "splice h deck 0
      (toIntegerOrInfinity (cutDeckVariant (length (cells h deck)) (rs k) splitError)) []")
  with splice_ref [of h deck 0 "toIntegerOrInfinity (cutDeckVariant (length (cells h deck)) (rs k) splitError)" "[]"]
  have "leftHalf = next_ref h" by simp
  with sp show ?thesis by (simp add: split_deck_def)
qed

lemma split_deck_props:
  assumes "split_deck deck splitError rs (h, k) = (leftHalf, st)" "deck < next_ref h"
  shows "leftHalf = next_ref h" "next_ref (hp st) = Suc (next_ref h)" "drawn st = k + 2"
    "mset (cells (hp st) deck) + mset (cells (hp st) leftHalf) = mset (cells h deck)"
    "\<forall>r<next_ref h. r \<noteq> deck \<longrightarrow> cells (hp st) r = cells h r"
    "leftCount st = int (length (cells (hp st) leftHalf))"
proof -
  define cut where "cut = toIntegerOrInfinity (cutDeckVariant (length (cells h deck)) (rs k) splitError)"
  have lh: "leftHalf = next_ref h"
    and st: "st = \<lparr>hp = fst (splice h deck 0 cut []),
                  leftCount = int (length (cells (fst (splice h deck 0 cut [])) (next_ref h))),
                  rightCount = int (length (cells (fst (splice h deck 0 cut [])) deck))
                                - floor_random (rs (k + 1)) splitError,
                  drawn = k + 2\<rparr>"
    using assms(1) unfolding split_deck_unfold cut_def by auto
  show "leftHalf = next_ref h" by (rule lh)
  show "next_ref (hp st) = Suc (next_ref h)" by (simp add: st)
  show "drawn st = k + 2" by (simp add: st)
  show "leftCount st = int (length (cells (hp st) leftHalf))" by (simp add: st lh)
  show "mset (cells (hp st) deck) + mset (cells (hp st) leftHalf) = mset (cells h deck)"
    using assms(2) splice_list_mset [of "cells h deck" 0 cut "[]"]
    by (simp add: st lh splice_cells_target splice_cells_removed add.commute)
  show "\<forall>r<next_ref h. r \<noteq> deck \<longrightarrow> cells (hp st) r = cells h r"
    by (simp add: st splice_cells_other)
qed

lemma flush_props:
  assumes "deck \<noteq> leftHalf" "deck < next_ref (hp st)" "leftHalf < next_ref (hp st)"
  shows "cells (fst (flush deck leftHalf st)) deck =
           snd (splice_list (cells (hp st) deck) (rightCount st) 0 (cells (hp st) leftHalf))"
    "mset (cells (fst (flush deck leftHalf st)) deck) =
       mset (cells (hp st) deck) + mset (cells (hp st) leftHalf)"
    "next_ref (fst (flush deck leftHalf st)) = Suc (next_ref (hp st))"
    "snd (flush deck leftHalf st) = drawn st"
    "\<forall>r<next_ref (hp st). r \<noteq> deck \<longrightarrow> cells (fst (flush deck leftHalf st)) r = cells (hp st) r"
proof -
  show a: "cells (fst (flush deck leftHalf st)) deck =
           snd (splice_list (cells (hp st) deck) (rightCount st) 0 (cells (hp st) leftHalf))"
    using assms by (simp add: flush_def splice_cells_target)
  show "mset (cells (fst (flush deck leftHalf st)) deck) =
       mset (cells (hp st) deck) + mset (cells (hp st) leftHalf)"
    using splice_list_mset [of "cells (hp st) deck" "rightCount st" 0 "cells (hp st) leftHalf"]
    by (simp add: a)
  show "next_ref (fst (flush deck leftHalf st)) = Suc (next_ref (hp st))"
    by (simp add: flush_def)
  show "snd (flush deck leftHalf st) = drawn st"
    by (simp add: flush_def)
  show "\<forall>r<next_ref (hp st). r \<noteq> deck \<longrightarrow> cells (fst (flush deck leftHalf st)) r = cells (hp st) r"
    by (simp add: flush_def splice_cells_other)
qed

lemma riffle_repetition_props:
  assumes "riffle_repetition deck splitError packetError rs (h, k) = Some (h', k')"
    and "deck < next_ref h"
  shows "mset (cells h' deck) = mset (cells h deck) \<and> next_ref h \<le> next_ref h' \<and> k \<le> k' \<and>
         (\<forall>r<next_ref h. r \<noteq> deck \<longrightarrow> cells h' r = cells h r)"
proof -
  obtain leftHalf st where sp: "split_deck deck splitError rs (h, k) = (leftHalf, st)"
    by (cases "split_deck deck splitError rs (h, k)")
  note s = split_deck_props [OF sp assms(2)]
  from assms(1) sp obtain st' where
    loop: "interleave deck leftHalf packetError rs st = Some st'"
    and res: "(h', k') = flush deck leftHalf st'"
    by (auto simp: riffle_repetition_def split: option.splits)
  have ne: "deck \<noteq> leftHalf" and v: "deck < next_ref (hp st)" "leftHalf < next_ref (hp st)"
    using assms(2) s(1,2) by simp_all
  from interleave_Some_iterate [OF loop] obtain n where
    n: "st' = ((interleave_step deck leftHalf packetError rs) ^^ n) st" by blast
  note inv = iterate_invariant [where packetError = packetError and rs = rs and n = n, OF ne v, folded n]
  from inv have v': "deck < next_ref (hp st')" "leftHalf < next_ref (hp st')"
    using v by simp_all
  note f = flush_props [OF ne v']
  from res have h': "h' = fst (flush deck leftHalf st')" and k': "k' = snd (flush deck leftHalf st')"
    by (metis fst_conv, metis snd_conv)
  have "mset (cells h' deck) = mset (cells h deck)"
    using f(2) inv s(4) by (simp add: h')
  moreover have "next_ref h \<le> next_ref h'"
    using f(3) inv s(2) by (simp add: h')
  moreover have "k \<le> k'"
    using f(4) inv s(3) by (simp add: k')
  moreover have "\<forall>r<next_ref h. r \<noteq> deck \<longrightarrow> cells h' r = cells h r"
  proof (intro allI impI)
    fix r assume r: "r < next_ref h" "r \<noteq> deck"
    with s(1,2) have r': "r < next_ref (hp st)" "r \<noteq> leftHalf" "r < next_ref (hp st')"
      using inv by simp_all
    from f(5) r r' have "cells h' r = cells (hp st') r" by (simp add: h')
    also from inv r r' have "\<dots> = cells (hp st) r" by simp
    also from s(5) r have "\<dots> = cells h r" by simp
    finally show "cells h' r = cells h r" .
  qed
  ultimately show ?thesis by simp
qed

lemma riffle_repetitions_props:
  assumes "riffle_repetitions n deck splitError packetError rs (h, k) = Some (h', k')"
    and "deck < next_ref h"
  shows "mset (cells h' deck) = mset (cells h deck) \<and> next_ref h \<le> next_ref h' \<and> k \<le> k' \<and>
         (\<forall>r<next_ref h. r \<noteq> deck \<longrightarrow> cells h' r = cells h r)"
  using assms
proof (induction n arbitrary: h k)
  case 0
  then show ?case by simp
next
  case (Suc n)
  from Suc.prems(1) obtain h1 k1 where
    one: "riffle_repetition deck splitError packetError rs (h, k) = Some (h1, k1)"
    and rest: "riffle_repetitions n deck splitError packetError rs (h1, k1) = Some (h', k')"
    by (auto split: option.splits)
  note p1 = riffle_repetition_props [OF one Suc.prems(2)]
  with Suc.prems(2) have "deck < next_ref h1" by simp
  note p2 = Suc.IH [OF rest this]
  from p1 p2 show ?case by auto
qed

lemma riffleShuffle_props:
  assumes "riffleShuffle h deckInput repetitions splitError packetError rs k = Some (h', out, k')"
  shows "out = next_ref h" "mset (cells h' out) = mset (cells h deckInput)"
    "\<forall>r<next_ref h. cells h' r = cells h r" "next_ref h < next_ref h'" "k \<le> k'"
proof -
  let ?h0 = "h\<lparr>cells := (cells h)(next_ref h := cells h deckInput), next_ref := Suc (next_ref h)\<rparr>"
  from assms have out: "out = next_ref h"
    and reps: "riffle_repetitions repetitions (next_ref h) splitError packetError rs (?h0, k) = Some (h', k')"
    by (auto simp: riffleShuffle_def alloc_def split: option.splits)
  have "next_ref h < next_ref ?h0" by simp
  note p = riffle_repetitions_props [OF reps this]
  show "out = next_ref h" by (rule out)
  show "mset (cells h' out) = mset (cells h deckInput)" using p by (simp add: out)
  show "\<forall>r<next_ref h. cells h' r = cells h r" using p by auto
  show "next_ref h < next_ref h'" using p by simp
  show "k \<le> k'" using p by simp
qed

subsection \<open>When the loop ends\<close>

lemma iterate_leftCount_progress:
  assumes "\<forall>i. 1 \<le> floor_random (rs (drawn st + 2 * i)) packetError"
    and "deck \<noteq> leftHalf" "deck < next_ref (hp st)" "leftHalf < next_ref (hp st)"
  shows "leftCount (((interleave_step deck leftHalf packetError rs) ^^ n) st) \<le> leftCount st - int n"
proof (induction n)
  case 0
  then show ?case by simp
next
  case (Suc n)
  let ?mid = "((interleave_step deck leftHalf packetError rs) ^^ n) st"
  from iterate_invariant [where packetError = packetError and rs = rs and n = n, OF assms(2-4)]
  have "drawn ?mid = drawn st + 2 * n" by simp
  with assms(1) have "1 \<le> floor_random (rs (drawn ?mid)) packetError" by simp
  with Suc show ?case by simp
qed

lemma interleave_bounded:
  assumes "\<forall>i. 1 \<le> floor_random (rs (drawn st + 2 * i)) packetError"
    and "deck \<noteq> leftHalf" "deck < next_ref (hp st)" "leftHalf < next_ref (hp st)"
  shows "\<exists>n \<le> nat (leftCount st).
           interleave deck leftHalf packetError rs st =
             Some (((interleave_step deck leftHalf packetError rs) ^^ n) st)"
proof -
  let ?step = "interleave_step deck leftHalf packetError rs"
  let ?stop = "\<lambda>n. \<not> 0 < leftCount ((?step ^^ n) st)"
  have "leftCount ((?step ^^ nat (leftCount st)) st) \<le> leftCount st - int (nat (leftCount st))"
    by (rule iterate_leftCount_progress [OF assms])
  then have stop: "?stop (nat (leftCount st))" by (cases "0 \<le> leftCount st") simp_all
  define n where "n = (LEAST n. ?stop n)"
  have "?stop n" unfolding n_def using stop by (rule LeastI)
  moreover have "\<forall>i<n. 0 < leftCount ((?step ^^ i) st)"
    unfolding n_def using not_less_Least by blast
  ultimately have "interleave deck leftHalf packetError rs st = Some ((?step ^^ n) st)"
    by (intro interleave_iterate_Some) simp_all
  moreover have "n \<le> nat (leftCount st)"
    unfolding n_def using stop by (rule Least_le)
  ultimately show ?thesis by blast
qed

lemma iterate_leftCount_stall:
  assumes "\<forall>i. floor_random (rs (drawn st + 2 * i)) packetError = 0"
    and "deck \<noteq> leftHalf" "deck < next_ref (hp st)" "leftHalf < next_ref (hp st)"
  shows "leftCount (((interleave_step deck leftHalf packetError rs) ^^ n) st) = leftCount st"
proof (induction n)
  case 0
  then show ?case by simp
next
  case (Suc n)
  let ?mid = "((interleave_step deck leftHalf packetError rs) ^^ n) st"
  from iterate_invariant [where packetError = packetError and rs = rs and n = n, OF assms(2-4)]
  have "drawn ?mid = drawn st + 2 * n" by simp
  with assms(1) have "floor_random (rs (drawn ?mid)) packetError = 0" by simp
  with Suc show ?case by simp
qed

lemma interleave_stall:
  assumes "\<forall>i. floor_random (rs (drawn st + 2 * i)) packetError = 0"
    and "deck \<noteq> leftHalf" "deck < next_ref (hp st)" "leftHalf < next_ref (hp st)"
    and "0 < leftCount st"
  shows "interleave deck leftHalf packetError rs st = None"
  using iterate_leftCount_stall [OF assms(1-4)] assms(5)
  by (intro interleave_None) simp

lemma riffle_repetition_returns:
  assumes "\<forall>j. 1 \<le> floor_random (rs j) packetError" "deck < next_ref h"
  shows "\<exists>hk'. riffle_repetition deck splitError packetError rs (h, k) = Some hk'"
proof -
  obtain leftHalf st where sp: "split_deck deck splitError rs (h, k) = (leftHalf, st)"
    by (cases "split_deck deck splitError rs (h, k)")
  note s = split_deck_props [OF sp assms(2)]
  have ne: "deck \<noteq> leftHalf" and v: "deck < next_ref (hp st)" "leftHalf < next_ref (hp st)"
    using assms(2) s(1,2) by simp_all
  from assms(1) have "\<forall>i. 1 \<le> floor_random (rs (drawn st + 2 * i)) packetError" by simp
  from interleave_bounded [OF this ne v] obtain st' where
    "interleave deck leftHalf packetError rs st = Some st'" by blast
  with sp show ?thesis by (simp add: riffle_repetition_def)
qed

lemma riffle_repetitions_returns:
  assumes "\<forall>j. 1 \<le> floor_random (rs j) packetError" "deck < next_ref h"
  shows "\<exists>hk'. riffle_repetitions n deck splitError packetError rs (h, k) = Some hk'"
  using assms(2)
proof (induction n arbitrary: h k)
  case 0
  then show ?case by simp
next
  case (Suc n)
  from riffle_repetition_returns [OF assms(1) Suc.prems] obtain h1 k1 where
    one: "riffle_repetition deck splitError packetError rs (h, k) = Some (h1, k1)" by fastforce
  from riffle_repetition_props [OF one Suc.prems] Suc.prems have "deck < next_ref h1" by simp
  from Suc.IH [OF this] one show ?case by simp
qed

lemma riffleShuffle_returns:
  assumes "\<forall>j. 1 \<le> floor_random (rs j) packetError"
  shows "\<exists>res. riffleShuffle h deckInput repetitions splitError packetError rs k = Some res"
proof -
  let ?h0 = "h\<lparr>cells := (cells h)(next_ref h := cells h deckInput), next_ref := Suc (next_ref h)\<rparr>"
  have "next_ref h < next_ref ?h0" by simp
  from riffle_repetitions_returns [where n = repetitions and splitError = splitError and k = k, OF assms this]
  obtain h' k' where "riffle_repetitions repetitions (next_ref h) splitError packetError rs (?h0, k) = Some (h', k')"
    by fastforce
  then show ?thesis by (simp add: riffleShuffle_def alloc_def)
qed

section \<open>Properties of calculateAverageDistance\<close>

lemma gaps_of_simps [simp]:
  "gaps_of [] = []" "gaps_of [a] = []" "gaps_of (a # b # ps) = (b - a - 1) # gaps_of (b # ps)"
  by (simp_all add: gaps_of_def)

lemma marks_from_step:
  "i < length array \<Longrightarrow>
   filter (\<lambda>j. array ! j = (1::int)) [i..<length array] =
     (if array ! i = 1 then [i] else []) @ filter (\<lambda>j. array ! j = 1) [Suc i..<length array]"
  by (simp add: upt_conv_Cons)

lemma cad_loop_gaps:
  "\<exists>l'. cad_loop array i (distanceSum, cnt, lastOneIndex) =
     (distanceSum + sum_list (gaps_of ((if lastOneIndex \<noteq> - 1 then [lastOneIndex] else []) @
                                 map int (filter (\<lambda>j. array ! j = 1) [i..<length array]))),
      cnt + int (length (gaps_of ((if lastOneIndex \<noteq> - 1 then [lastOneIndex] else []) @
                                 map int (filter (\<lambda>j. array ! j = 1) [i..<length array])))),
      l')"
proof (induction array i "(distanceSum, cnt, lastOneIndex)" arbitrary: distanceSum cnt lastOneIndex
       rule: cad_loop.induct)
  case (1 array i distanceSum cnt lastOneIndex)
  show ?case
  proof (cases "i < length array")
    case False
    then show ?thesis by (subst cad_loop.simps) simp
  next
    case inside: True
    note step = marks_from_step [OF inside]
    show ?thesis
    proof (cases "array ! i = 1")
      case False
      from "1.hyps"(3) [OF inside False] obtain l' where
        "cad_loop array (i + 1) (distanceSum, cnt, lastOneIndex) =
          (distanceSum + sum_list (gaps_of ((if lastOneIndex \<noteq> - 1 then [lastOneIndex] else []) @
                                 map int (filter (\<lambda>j. array ! j = 1) [i + 1..<length array]))),
           cnt + int (length (gaps_of ((if lastOneIndex \<noteq> - 1 then [lastOneIndex] else []) @
                                 map int (filter (\<lambda>j. array ! j = 1) [i + 1..<length array])))),
           l')" by blast
      with inside False show ?thesis
        by (subst cad_loop.simps) (simp add: step)
    next
      case marked: True
      show ?thesis
      proof (cases "lastOneIndex = - 1")
        case True
        from "1.hyps"(2) [OF inside marked] True obtain l' where
          "cad_loop array (i + 1) (distanceSum, cnt, int i) =
            (distanceSum + sum_list (gaps_of (int i # map int (filter (\<lambda>j. array ! j = 1) [i + 1..<length array]))),
             cnt + int (length (gaps_of (int i # map int (filter (\<lambda>j. array ! j = 1) [i + 1..<length array])))),
             l')" by auto
        with inside marked True show ?thesis
          by (subst cad_loop.simps) (simp add: step)
      next
        case False
        from "1.hyps"(1) [OF inside marked False] obtain l' where
          "cad_loop array (i + 1) (distanceSum + (int i - lastOneIndex - 1), cnt + 1, int i) =
            (distanceSum + (int i - lastOneIndex - 1) + sum_list (gaps_of (int i # map int (filter (\<lambda>j. array ! j = 1) [i + 1..<length array]))),
             cnt + 1 + int (length (gaps_of (int i # map int (filter (\<lambda>j. array ! j = 1) [i + 1..<length array])))),
             l')" by auto
        with inside marked False show ?thesis
          by (subst cad_loop.simps) (simp add: step)
      qed
    qed
  qed
qed


lemma gaps_of_nonneg: "sorted_wrt (<) ps \<Longrightarrow> \<forall>g \<in> set (gaps_of ps). 0 \<le> g"
proof (induction ps)
  case Nil
  then show ?case by simp
next
  case (Cons a ps)
  then show ?case by (cases ps) auto
qed

lemma marked_positions_increasing: "sorted_wrt (<) (map int (marked_positions deck))"
  by (simp add: marked_positions_def sorted_wrt_map sorted_wrt_filter)



lemma calculateAverageDistance_gaps:
  "calculateAverageDistance deck =
     (if gaps_of (map int (marked_positions deck)) = [] then 0
      else real_of_int (sum_list (gaps_of (map int (marked_positions deck)))) /
           real (length (gaps_of (map int (marked_positions deck)))))"
proof -
  obtain l' where
    "cad_loop deck 0 (0, 0, - 1) =
       (sum_list (gaps_of (map int (marked_positions deck))),
        int (length (gaps_of (map int (marked_positions deck)))), l')"
    using cad_loop_gaps [of deck 0 0 0 "- 1"] by (auto simp: marked_positions_def)
  then show ?thesis
    by (simp add: calculateAverageDistance_def)
qed

text \<open>
  C2. For every deck, \<open>calculateAverageDistance\<close> returns a number that is at least \<open>0\<close>
  and equals the sum, over each marked card after the first, of
  \<open>currentIndex - previousIndex - 1\<close>, divided by the number of these gaps (and \<open>0\<close> when
  there is none). It returns \<open>2\<close> on \<open>[1,0,0,1,0,0,1]\<close>, \<open>0\<close> on \<open>[1,1,1]\<close> and on
  \<open>[0,0,0]\<close>, and \<open>4\<close> on \<open>[1,0,0,0,0,1]\<close>.
\<close>

theorem averageDistance_correct:
  "calculateAverageDistance deck = averageDistance_spec deck \<and>
   0 \<le> calculateAverageDistance deck \<and>
   calculateAverageDistance [1, 0, 0, 1, 0, 0, 1] = 2 \<and>
   calculateAverageDistance [1, 1, 1] = 0 \<and>
   calculateAverageDistance [0, 0, 0] = 0 \<and>
   calculateAverageDistance [1, 0, 0, 0, 0, 1] = 4"
proof (intro conjI)
  show "calculateAverageDistance deck = averageDistance_spec deck"
    by (simp add: calculateAverageDistance_gaps averageDistance_spec_def Let_def)
  have "0 \<le> sum_list (gaps_of (map int (marked_positions deck)))"
    using gaps_of_nonneg [OF marked_positions_increasing, of deck]
    by (intro sum_list_nonneg) simp
  then show "0 \<le> calculateAverageDistance deck"
    by (simp add: calculateAverageDistance_gaps)
  show "calculateAverageDistance [1, 0, 0, 1, 0, 0, 1] = 2" by code_simp
  show "calculateAverageDistance [1, 1, 1] = 0" by code_simp
  show "calculateAverageDistance [0, 0, 0] = 0" by code_simp
  show "calculateAverageDistance [1, 0, 0, 0, 0, 1] = 4" by code_simp
qed



section \<open>Properties of riffleShuffle\<close>

lemma splice_list_front:
  "splice_list xs 0 deleteCount [] =
     (take (actualDeleteCount (length xs) 0 deleteCount) xs,
      drop (actualDeleteCount (length xs) 0 deleteCount) xs)"
  by (simp add: splice_list_def actualStart_def Let_def)

lemma split_deck_contents:
  assumes "split_deck deck splitError rs (h, k) = (leftHalf, st)" "deck < next_ref h"
  shows "cells (hp st) leftHalf =
           take (actualDeleteCount (length (cells h deck)) 0
                   (toIntegerOrInfinity (cutDeckVariant (length (cells h deck)) (rs k) splitError)))
                (cells h deck)"
    and "cells (hp st) deck =
           drop (actualDeleteCount (length (cells h deck)) 0
                   (toIntegerOrInfinity (cutDeckVariant (length (cells h deck)) (rs k) splitError)))
                (cells h deck)"
    and "rightCount st = int (length (cells (hp st) deck)) - floor_random (rs (k + 1)) splitError"
  using assms unfolding split_deck_unfold
  by (auto simp: splice_cells_removed splice_cells_target splice_list_front)

subsection \<open>When riffleShuffle returns\<close>

lemma iterate_drawn:
  "drawn (((interleave_step deck leftHalf packetError rs) ^^ n) st) = drawn st + 2 * n"
  by (induction n) simp_all

lemma iterate_leftCount_sum:
  "leftCount (((interleave_step deck leftHalf packetError rs) ^^ n) st) =
     leftCount st - (\<Sum>i<n. floor_random (rs (drawn st + 2 * i)) packetError)"
  by (induction n) (simp_all add: iterate_drawn)

lemma interleave_stops_least:
  assumes "\<not> 0 < leftCount (((interleave_step deck leftHalf packetError rs) ^^ m) st)"
  shows "\<exists>n\<le>m. interleave deck leftHalf packetError rs st =
           Some (((interleave_step deck leftHalf packetError rs) ^^ n) st)"
proof -
  let ?step = "interleave_step deck leftHalf packetError rs"
  let ?stop = "\<lambda>n. \<not> 0 < leftCount ((?step ^^ n) st)"
  define n where "n = (LEAST n. ?stop n)"
  have "?stop n" unfolding n_def using assms by (rule LeastI)
  moreover have "\<forall>i<n. 0 < leftCount ((?step ^^ i) st)"
    unfolding n_def using not_less_Least by blast
  ultimately have "interleave deck leftHalf packetError rs st = Some ((?step ^^ n) st)"
    by (intro interleave_iterate_Some) simp_all
  moreover have "n \<le> m"
    unfolding n_def using assms by (rule Least_le)
  ultimately show ?thesis by blast
qed

lemma interleave_returns_iff:
  "(\<exists>st'. interleave deck leftHalf packetError rs st = Some st') \<longleftrightarrow>
   (\<exists>m. leftCount st \<le> (\<Sum>i<m. floor_random (rs (drawn st + 2 * i)) packetError))"
proof
  assume "\<exists>st'. interleave deck leftHalf packetError rs st = Some st'"
  then obtain st' where "interleave deck leftHalf packetError rs st = Some st'" ..
  from interleave_Some_iterate [OF this] obtain n where
    "\<not> 0 < leftCount (((interleave_step deck leftHalf packetError rs) ^^ n) st)" by blast
  then have "leftCount st \<le> (\<Sum>i<n. floor_random (rs (drawn st + 2 * i)) packetError)"
    by (simp add: iterate_leftCount_sum)
  then show "\<exists>m. leftCount st \<le> (\<Sum>i<m. floor_random (rs (drawn st + 2 * i)) packetError)" ..
next
  assume "\<exists>m. leftCount st \<le> (\<Sum>i<m. floor_random (rs (drawn st + 2 * i)) packetError)"
  then obtain m where "leftCount st \<le> (\<Sum>i<m. floor_random (rs (drawn st + 2 * i)) packetError)" ..
  then have "\<not> 0 < leftCount (((interleave_step deck leftHalf packetError rs) ^^ m) st)"
    by (simp add: iterate_leftCount_sum)
  from interleave_stops_least [OF this]
  show "\<exists>st'. interleave deck leftHalf packetError rs st = Some st'" by blast
qed

lemma riffle_repetition_returns_iff:
  assumes "split_deck deck splitError rs (h, k) = (leftHalf, st)"
  shows "(\<exists>hk'. riffle_repetition deck splitError packetError rs (h, k) = Some hk') \<longleftrightarrow>
         (\<exists>m. leftCount st \<le> (\<Sum>i<m. floor_random (rs (k + 2 + 2 * i)) packetError))"
proof -
  from assms have d: "drawn st = k + 2" unfolding split_deck_unfold by auto
  have "(\<exists>hk'. riffle_repetition deck splitError packetError rs (h, k) = Some hk') \<longleftrightarrow>
        (\<exists>st'. interleave deck leftHalf packetError rs st = Some st')"
    using assms by (auto simp: riffle_repetition_def split: option.splits)
  then show ?thesis by (simp add: interleave_returns_iff d)
qed

lemma riffle_repetitions_snoc:
  "riffle_repetitions (Suc n) deck splitError packetError rs hk =
     (case riffle_repetitions n deck splitError packetError rs hk of
        None \<Rightarrow> None
      | Some hk' \<Rightarrow> riffle_repetition deck splitError packetError rs hk')"
proof (induction n arbitrary: hk)
  case 0
  then show ?case by (simp split: option.splits)
next
  case (Suc n)
  show ?case
  proof (cases "riffle_repetition deck splitError packetError rs hk")
    case None
    then show ?thesis by simp
  next
    case (Some hk1)
    have "riffle_repetitions (Suc (Suc n)) deck splitError packetError rs hk =
          riffle_repetitions (Suc n) deck splitError packetError rs hk1"
      using Some by simp
    also have "\<dots> = (case riffle_repetitions n deck splitError packetError rs hk1 of
        None \<Rightarrow> None
      | Some hk' \<Rightarrow> riffle_repetition deck splitError packetError rs hk')"
      by (rule Suc.IH)
    also have "riffle_repetitions n deck splitError packetError rs hk1 =
               riffle_repetitions (Suc n) deck splitError packetError rs hk"
      using Some by simp
    finally show ?thesis .
  qed
qed

lemma riffleShuffle_snoc:
  "riffleShuffle h deckInput (Suc n) splitError packetError rs k =
     (case riffleShuffle h deckInput n splitError packetError rs k of
        None \<Rightarrow> None
      | Some (hn, outn, kn) \<Rightarrow>
          (case riffle_repetition outn splitError packetError rs (hn, kn) of
             None \<Rightarrow> None
           | Some (h', k') \<Rightarrow> Some (h', outn, k')))"
  unfolding riffleShuffle_def riffle_repetitions_snoc
  by (simp add: alloc_def split: option.splits prod.splits)

lemma riffle_repetition_draws:
  assumes "riffle_repetition deck splitError packetError rs (h, k) = Some (h', k')"
  shows "\<exists>j. k' = k + 2 * j"
proof -
  obtain leftHalf st where sp: "split_deck deck splitError rs (h, k) = (leftHalf, st)"
    by (cases "split_deck deck splitError rs (h, k)")
  from sp have d: "drawn st = k + 2" unfolding split_deck_unfold by auto
  from assms sp obtain st' where
    loop: "interleave deck leftHalf packetError rs st = Some st'"
    and res: "(h', k') = flush deck leftHalf st'"
    by (auto simp: riffle_repetition_def split: option.splits)
  from interleave_Some_iterate [OF loop] obtain n where
    "st' = ((interleave_step deck leftHalf packetError rs) ^^ n) st" by blast
  then have "drawn st' = k + 2 + 2 * n" by (simp add: iterate_drawn d)
  moreover from res have "k' = drawn st'" by (simp add: flush_def)
  ultimately have "k' = k + 2 * (Suc n)" by simp
  then show ?thesis ..
qed

lemma split_leftCount_le:
  assumes "split_deck deck splitError rs (h, k) = (leftHalf, st)" "deck < next_ref h"
  shows "leftCount st \<le> int (length (cells h deck))"
  using split_deck_contents(1) [OF assms] split_deck_props(6) [OF assms] by simp

lemma riffle_repetitions_returns_fair:
  assumes fair: "\<forall>m. \<exists>n. int len \<le> (\<Sum>i<n. floor_random (rs (k0 + 2 * m + 2 * i)) packetError)"
  shows "length (cells h deck) = len \<Longrightarrow> k = k0 + 2 * j \<Longrightarrow> deck < next_ref h \<Longrightarrow>
         \<exists>hk'. riffle_repetitions n deck splitError packetError rs (h, k) = Some hk'"
proof (induction n arbitrary: h k j)
  case 0
  then show ?case by simp
next
  case (Suc n)
  obtain leftHalf st where sp: "split_deck deck splitError rs (h, k) = (leftHalf, st)"
    by (cases "split_deck deck splitError rs (h, k)")
  from fair obtain m where
    "int len \<le> (\<Sum>i<m. floor_random (rs (k0 + 2 * (Suc j) + 2 * i)) packetError)" by blast
  with Suc.prems(2) have "int len \<le> (\<Sum>i<m. floor_random (rs (k + 2 + 2 * i)) packetError)"
    by (simp add: add.assoc)
  with split_leftCount_le [OF sp Suc.prems(3)] Suc.prems(1)
  have "leftCount st \<le> (\<Sum>i<m. floor_random (rs (k + 2 + 2 * i)) packetError)" by simp
  with riffle_repetition_returns_iff [OF sp, of packetError] obtain h1 k1 where
    one: "riffle_repetition deck splitError packetError rs (h, k) = Some (h1, k1)"
    by (metis prod.exhaust)
  from riffle_repetition_draws [OF one] Suc.prems(2) obtain j' where k1: "k1 = k0 + 2 * j'"
    by (metis add.assoc distrib_left)
  note p = riffle_repetition_props [OF one Suc.prems(3)]
  from p have "mset (cells h1 deck) = mset (cells h deck)" by simp
  then have "length (cells h1 deck) = length (cells h deck)" by (rule mset_eq_length)
  with Suc.prems(1) have l1: "length (cells h1 deck) = len" by simp
  from p Suc.prems(3) have v1: "deck < next_ref h1" by simp
  from Suc.IH [OF l1 k1 v1] one show ?case by simp
qed

lemma riffleShuffle_returns_fair:
  assumes "\<forall>m. \<exists>n. int (length (cells h deckInput))
              \<le> (\<Sum>i<n. floor_random (rs (k + 2 * m + 2 * i)) packetError)"
  shows "\<exists>h' out k'. riffleShuffle h deckInput repetitions splitError packetError rs k = Some (h', out, k')"
proof -
  let ?h0 = "h\<lparr>cells := (cells h)(next_ref h := cells h deckInput), next_ref := Suc (next_ref h)\<rparr>"
  have "length (cells ?h0 (next_ref h)) = length (cells h deckInput)" by simp
  moreover have "k = k + 2 * 0" by simp
  moreover have "next_ref h < next_ref ?h0" by simp
  ultimately obtain h' k' where
    "riffle_repetitions repetitions (next_ref h) splitError packetError rs (?h0, k) = Some (h', k')"
    using riffle_repetitions_returns_fair [OF assms, of ?h0 "next_ref h" k 0 repetitions splitError]
    by (metis prod.exhaust)
  then show ?thesis by (simp add: riffleShuffle_def alloc_def)
qed

lemma sum_after_slow_start:
  fixes f :: "nat \<Rightarrow> int"
  assumes "\<forall>i. 0 \<le> f i" "\<forall>i\<ge>c. 1 \<le> f i"
  shows "int n \<le> (\<Sum>i<c + n. f i)"
proof (induction n)
  case 0
  from assms(1) show ?case by (simp add: sum_nonneg)
next
  case (Suc n)
  from assms(2) have "1 \<le> f (c + n)" by simp
  with Suc show ?case by simp
qed

text \<open>
  C1, as the code has it. Whenever \<open>riffleShuffle\<close> returns, the returned deck is a
  permutation of the input deck: the same multiset of markers, hence the same length and the
  same number of marked cards. This holds for every deck, number of repetitions,
  \<open>splitError\<close>, \<open>packetError\<close> and stream of draws. Whether it returns is decided
  repetition by repetition: with no repetition it returns; it finishes one more repetition
  exactly when it finishes the earlier ones and the packet sizes then drawn, at every second
  draw after the split's two, add up to at least \<open>leftCount\<close>. So it returns for any number
  of repetitions when the packet sizes read at every second draw of the stream, from any
  point on, add up to the deck length; zero-size packets in between do no harm.
\<close>

theorem riffleShuffle_permutation:
  "(riffleShuffle h deckInput repetitions splitError packetError rs k = Some (h', out, k') \<longrightarrow>
      mset (cells h' out) = mset (cells h deckInput) \<and>
      length (cells h' out) = length (cells h deckInput) \<and>
      length (filter (\<lambda>card. card = 1) (cells h' out)) =
        length (filter (\<lambda>card. card = 1) (cells h deckInput))) \<and>
   (\<exists>hz outz. riffleShuffle h deckInput 0 splitError packetError rs k = Some (hz, outz, k)) \<and>
   (riffleShuffle h deckInput n splitError packetError rs k = None \<longrightarrow>
      riffleShuffle h deckInput (Suc n) splitError packetError rs k = None) \<and>
   (riffleShuffle h deckInput n splitError packetError rs k = Some (hn, outn, kn) \<and>
    split_deck outn splitError rs (hn, kn) = (leftHalf, st) \<longrightarrow>
      ((\<exists>res. riffleShuffle h deckInput (Suc n) splitError packetError rs k = Some res) \<longleftrightarrow>
       (\<exists>m. leftCount st \<le> (\<Sum>i<m. floor_random (rs (kn + 2 + 2 * i)) packetError)))) \<and>
   ((\<forall>m. \<exists>n. int (length (cells h deckInput))
              \<le> (\<Sum>i<n. floor_random (rs (k + 2 * m + 2 * i)) packetError)) \<longrightarrow>
      (\<exists>h' out k'. riffleShuffle h deckInput repetitions splitError packetError rs k = Some (h', out, k')))"
proof (intro conjI impI)
  assume r: "riffleShuffle h deckInput repetitions splitError packetError rs k = Some (h', out, k')"
  show m: "mset (cells h' out) = mset (cells h deckInput)"
    by (rule riffleShuffle_props(2) [OF r])
  from m show "length (cells h' out) = length (cells h deckInput)"
    by (rule mset_eq_length)
  from m have "mset (filter (\<lambda>card. card = 1) (cells h' out)) =
               mset (filter (\<lambda>card. card = 1) (cells h deckInput))"
    by simp
  then show "length (filter (\<lambda>card. card = 1) (cells h' out)) =
        length (filter (\<lambda>card. card = 1) (cells h deckInput))"
    by (rule mset_eq_length)
next
  show "\<exists>hz outz. riffleShuffle h deckInput 0 splitError packetError rs k = Some (hz, outz, k)"
    by (simp add: riffleShuffle_def alloc_def)
next
  assume "riffleShuffle h deckInput n splitError packetError rs k = None"
  then show "riffleShuffle h deckInput (Suc n) splitError packetError rs k = None"
    by (simp add: riffleShuffle_snoc)
next
  assume a: "riffleShuffle h deckInput n splitError packetError rs k = Some (hn, outn, kn) \<and>
    split_deck outn splitError rs (hn, kn) = (leftHalf, st)"
  then have "(\<exists>res. riffleShuffle h deckInput (Suc n) splitError packetError rs k = Some res) \<longleftrightarrow>
        (\<exists>hk'. riffle_repetition outn splitError packetError rs (hn, kn) = Some hk')"
    by (auto simp: riffleShuffle_snoc split: option.splits)
  also from a have "\<dots> \<longleftrightarrow>
        (\<exists>m. leftCount st \<le> (\<Sum>i<m. floor_random (rs (kn + 2 + 2 * i)) packetError))"
    by (intro riffle_repetition_returns_iff) simp
  finally show "(\<exists>res. riffleShuffle h deckInput (Suc n) splitError packetError rs k = Some res) \<longleftrightarrow>
       (\<exists>m. leftCount st \<le> (\<Sum>i<m. floor_random (rs (kn + 2 + 2 * i)) packetError))" .
next
  assume "\<forall>m. \<exists>n. int (length (cells h deckInput))
              \<le> (\<Sum>i<n. floor_random (rs (k + 2 * m + 2 * i)) packetError)"
  then show "\<exists>h' out k'. riffleShuffle h deckInput repetitions splitError packetError rs k = Some (h', out, k')"
    by (rule riffleShuffle_returns_fair)
qed

theorem riffleShuffle_permutation_witness:
  "floor_random (slow_start_draws 0) 4 = 0 \<and> floor_random (slow_start_draws 2) 4 = 0 \<and>
   (\<forall>m. \<exists>n. int (length (cells example_heap 0))
             \<le> (\<Sum>i<n. floor_random (slow_start_draws (0 + 2 * m + 2 * i)) 4)) \<and>
   (\<exists>h' out k'. riffleShuffle example_heap 0 7 4 4 slow_start_draws 0 = Some (h', out, k') \<and>
      mset (cells h' out) = mset [0, 0, 0, 0, 0, 1, 0, 0] \<and>
      length (cells h' out) = 8 \<and>
      length (filter (\<lambda>card. card = 1) (cells h' out)) = 1) \<and>
   (\<exists>hn outn kn leftHalf st.
      riffleShuffle example_heap 0 1 4 4 slow_start_draws 0 = Some (hn, outn, kn) \<and>
      split_deck outn 4 slow_start_draws (hn, kn) = (leftHalf, st) \<and>
      (\<exists>res. riffleShuffle example_heap 0 2 4 4 slow_start_draws 0 = Some res) \<and>
      (\<exists>m. leftCount st \<le> (\<Sum>i<m. floor_random (slow_start_draws (kn + 2 + 2 * i)) 4)))"
proof -
  have z: "floor_random (slow_start_draws 0) 4 = 0" "floor_random (slow_start_draws 2) 4 = 0"
    by (simp_all add: slow_start_draws_def floor_random_def)
  have fair: "\<forall>m. \<exists>n. int (length (cells example_heap 0))
             \<le> (\<Sum>i<n. floor_random (slow_start_draws (0 + 2 * m + 2 * i)) 4)"
  proof
    fix m
    have "\<forall>i. 0 \<le> floor_random (slow_start_draws (0 + 2 * m + 2 * i)) 4"
      by (simp add: slow_start_draws_def floor_random_def)
    moreover have "\<forall>i\<ge>2. 1 \<le> floor_random (slow_start_draws (0 + 2 * m + 2 * i)) 4"
      by (simp add: slow_start_draws_def floor_random_def)
    ultimately have "int 8 \<le> (\<Sum>i<2 + 8. floor_random (slow_start_draws (0 + 2 * m + 2 * i)) 4)"
      by (rule sum_after_slow_start)
    then show "\<exists>n. int (length (cells example_heap 0))
             \<le> (\<Sum>i<n. floor_random (slow_start_draws (0 + 2 * m + 2 * i)) 4)"
      by (intro exI [of _ "2 + 8"]) (simp add: example_heap_def)
  qed
  note inst = riffleShuffle_permutation [where h = example_heap and deckInput = 0 and splitError = 4
      and packetError = 4 and rs = slow_start_draws and k = 0]
  from inst [where repetitions = 7] fair obtain h' out k' where
    r: "riffleShuffle example_heap 0 7 4 4 slow_start_draws 0 = Some (h', out, k')"
    by blast
  with inst [where repetitions = 7 and h' = h' and out = out and k' = k']
  have p: "mset (cells h' out) = mset [0, 0, 0, 0, 0, 1, 0, 0] \<and>
      length (cells h' out) = 8 \<and>
      length (filter (\<lambda>card. card = 1) (cells h' out)) = 1"
    by (simp add: example_heap_def)
  from inst [where repetitions = 1] fair obtain hn outn kn where
    one: "riffleShuffle example_heap 0 1 4 4 slow_start_draws 0 = Some (hn, outn, kn)"
    by blast
  from inst [where repetitions = 2] fair obtain res where
    two: "riffleShuffle example_heap 0 2 4 4 slow_start_draws 0 = Some res"
    by blast
  obtain leftHalf st where sp: "split_deck outn 4 slow_start_draws (hn, kn) = (leftHalf, st)"
    by (cases "split_deck outn 4 slow_start_draws (hn, kn)")
  have "Suc 1 = 2" by simp
  with inst [where n = 1 and hn = hn and outn = outn and kn = kn and leftHalf = leftHalf and st = st]
    one sp two
  have "\<exists>m. leftCount st \<le> (\<Sum>i<m. floor_random (slow_start_draws (kn + 2 + 2 * i)) 4)"
    by (metis (no_types, lifting))
  with z fair r p one sp two show ?thesis by blast
qed

lemma stalled_repetition:
  assumes "split_deck deck splitError rs (h, k) = (leftHalf, st)" "deck < next_ref h"
    and "\<forall>i. floor_random (rs (k + 2 + 2 * i)) packetError = 0"
    and "0 < leftCount st"
  shows "riffle_repetition deck splitError packetError rs (h, k) = None"
proof -
  note s = split_deck_props [OF assms(1,2)]
  have ne: "deck \<noteq> leftHalf" and v: "deck < next_ref (hp st)" "leftHalf < next_ref (hp st)"
    using assms(2) s(1,2) by simp_all
  from assms(3) s(3) have "\<forall>i. floor_random (rs (drawn st + 2 * i)) packetError = 0" by simp
  from interleave_stall [OF this ne v assms(4)] assms(1)
  show ?thesis by (simp add: riffle_repetition_def)
qed

lemma riffleShuffle_first_repetition_stalls:
  assumes "riffle_repetition (next_ref h) splitError packetError rs
             (fst (alloc h (cells h deckInput)), k) = None"
  shows "riffleShuffle h deckInput (Suc n) splitError packetError rs k = None"
  using assms by (simp add: riffleShuffle_def alloc_def)

text \<open>
  C1 as stated asks for a returned permutation for every \<open>packetError\<close> and every stream
  of draws. With \<open>packetError = 1\<close> every packet-size draw is \<open>0\<close>, the counter
  \<open>leftCount\<close> never falls, and the call on a two-card deck returns nothing.
\<close>

theorem riffleShuffle_no_result:
  "riffleShuffle two_card_heap 0 1 0 1 (const_draws (1/2)) 0 = None"
proof -
  let ?h0 = "fst (alloc two_card_heap (cells two_card_heap 0))"
  let ?deck = "next_ref two_card_heap"
  obtain leftHalf st where sp: "split_deck ?deck 0 (const_draws (1/2)) (?h0, 0) = (leftHalf, st)"
    by (cases "split_deck ?deck 0 (const_draws (1/2)) (?h0, 0)")
  have v: "?deck < next_ref ?h0" by (simp add: alloc_def)
  have "cells (hp st) leftHalf = [1, 0]"
    using split_deck_contents(1) [OF sp v]
    by (simp add: alloc_def two_card_heap_def const_draws_def cutDeckVariant_def floor_random_def
        toIntegerOrInfinity_def actualDeleteCount_def)
  with split_deck_props(6) [OF sp v] have "0 < leftCount st" by simp
  moreover have "\<forall>i. floor_random (const_draws (1/2) (0 + 2 + 2 * i)) 1 = 0"
    by (simp add: const_draws_def floor_random_def)
  ultimately have "riffle_repetition ?deck 0 1 (const_draws (1/2)) (?h0, 0) = None"
    using stalled_repetition [OF sp v] by blast
  then have "riffleShuffle two_card_heap 0 (Suc 0) 0 1 (const_draws (1/2)) 0 = None"
    by (rule riffleShuffle_first_repetition_stalls)
  then show ?thesis by simp
qed

subsection \<open>The split\<close>

lemma floor_random_range:
  assumes "0 \<le> r" "r < 1" "0 < n"
  shows "0 \<le> floor_random r n \<and> floor_random r n < n"
proof -
  from assms have "0 \<le> r * of_int n" by simp
  moreover from assms have "r * of_int n < of_int n" by simp
  ultimately show ?thesis by (simp add: floor_random_def floor_less_iff)
qed

lemma floor_random_interval:
  assumes "0 < n"
  shows "floor_random r n = u \<longleftrightarrow> of_int u / of_int n \<le> r \<and> r < (of_int u + 1) / of_int n"
  using assms by (simp add: floor_random_def floor_eq_iff field_simps)

lemma toIntegerOrInfinity_of_int [simp]: "toIntegerOrInfinity (of_int z) = z"
  by (simp add: toIntegerOrInfinity_def)

lemma toIntegerOrInfinity_half:
  "toIntegerOrInfinity (of_int z + 1 / 2) = (if z < 0 then z + 1 else z)"
proof -
  have "\<lfloor>of_int z + (1 / 2 :: real)\<rfloor> = z" by (simp add: floor_eq_iff)
  moreover have "\<lceil>of_int z + (1 / 2 :: real)\<rceil> = z + 1" by (simp add: ceiling_eq_iff)
  moreover have "of_int z + (1 / 2 :: real) < 0 \<longleftrightarrow> z < 0"
  proof
    assume "of_int z + (1 / 2 :: real) < 0"
    then have "(of_int z :: real) < 0" by simp
    then show "z < 0" by simp
  next
    assume "z < 0"
    then have "z \<le> - 1" by simp
    then have "(of_int z :: real) \<le> - 1" by (metis of_int_le_iff of_int_minus of_int_1)
    then show "of_int z + (1 / 2 :: real) < 0" by simp
  qed
  ultimately show ?thesis by (simp add: toIntegerOrInfinity_def)
qed

lemma cutDeckVariant_cases:
  "cutDeckVariant len r splitError =
     of_int (int len div 2 + floor_random r 9 - splitError) + (if even len then 0 else 1 / 2)"
proof (cases "even len")
  case True
  then obtain q where "len = 2 * q" by (elim evenE)
  then show ?thesis by (simp add: cutDeckVariant_def)
next
  case False
  then obtain q where "len = 2 * q + 1" by (elim oddE)
  then show ?thesis by (simp add: cutDeckVariant_def field_simps)
qed

lemma cut_clamped:
  "actualDeleteCount len 0 (toIntegerOrInfinity (cutDeckVariant len r splitError)) =
     nat (min (max (int len div 2 + floor_random r 9 - splitError) 0) (int len))"
proof -
  define m where "m = int len div 2 + floor_random r 9 - splitError"
  have cut: "cutDeckVariant len r splitError = of_int m + (if even len then 0 else 1 / 2)"
    unfolding m_def by (rule cutDeckVariant_cases)
  have "max (toIntegerOrInfinity (cutDeckVariant len r splitError)) 0 = max m 0"
  proof (cases "even len")
    case True
    with cut have "cutDeckVariant len r splitError = of_int m" by simp
    then show ?thesis by (simp only: toIntegerOrInfinity_of_int)
  next
    case False
    with cut have "cutDeckVariant len r splitError = of_int m + 1 / 2" by simp
    then show ?thesis by (simp only: toIntegerOrInfinity_half) simp
  qed
  then show ?thesis
    by (simp add: actualDeleteCount_def m_def)
qed


lemma split_deck_clamped:
  assumes "split_deck deck splitError rs (h, k) = (leftHalf, st)" "deck < next_ref h"
  shows "cells (hp st) leftHalf =
           take (nat (min (max (int (length (cells h deck)) div 2 + floor_random (rs k) 9 - splitError) 0)
                          (int (length (cells h deck)))))
                (cells h deck)"
    and "cells (hp st) deck =
           drop (nat (min (max (int (length (cells h deck)) div 2 + floor_random (rs k) 9 - splitError) 0)
                          (int (length (cells h deck)))))
                (cells h deck)"
  using split_deck_contents(1,2) [OF assms] by (simp_all only: cut_clamped)

text \<open>
  C3. In a repetition, the left half cut off the deck has
  \<open>floor (deckLength / 2) + U - splitError\<close> cards whenever this number lies in
  \<open>[0, deckLength]\<close>; \<open>U\<close> comes from the one draw \<open>rs k\<close>, lies in \<open>{0, ..., 8}\<close>,
  and takes the value \<open>u\<close> exactly when the draw lies in \<open>[u / 9, (u + 1) / 9)\<close>, so a
  uniform draw makes the nine values equally likely.
\<close>

theorem split_left_half_size:
  assumes "0 \<le> rs k" "rs k < 1"
    and "split_deck deck splitError rs (h, k) = (leftHalf, st)"
    and "deck < next_ref h"
    and "0 \<le> int (length (cells h deck)) div 2 + floor_random (rs k) 9 - splitError"
    and "int (length (cells h deck)) div 2 + floor_random (rs k) 9 - splitError
           \<le> int (length (cells h deck))"
  shows "int (length (cells (hp st) leftHalf)) =
           int (length (cells h deck)) div 2 + floor_random (rs k) 9 - splitError \<and>
         leftCount st = int (length (cells h deck)) div 2 + floor_random (rs k) 9 - splitError \<and>
         0 \<le> floor_random (rs k) 9 \<and> floor_random (rs k) 9 \<le> 8 \<and>
         (\<forall>u. floor_random (rs k) 9 = u \<longleftrightarrow>
                of_int u / 9 \<le> rs k \<and> rs k < (of_int u + 1) / 9)"
proof -
  from assms(5,6) split_deck_clamped(1) [OF assms(3,4)]
  have len: "int (length (cells (hp st) leftHalf)) =
           int (length (cells h deck)) div 2 + floor_random (rs k) 9 - splitError"
    by simp
  moreover from len split_deck_props(6) [OF assms(3,4)]
  have "leftCount st = int (length (cells h deck)) div 2 + floor_random (rs k) 9 - splitError"
    by simp
  moreover from floor_random_range [OF assms(1,2), of 9]
  have "0 \<le> floor_random (rs k) 9 \<and> floor_random (rs k) 9 \<le> 8" by simp
  moreover have "\<forall>u. floor_random (rs k) 9 = u \<longleftrightarrow>
                of_int u / 9 \<le> rs k \<and> rs k < (of_int u + 1) / 9"
    using floor_random_interval [of 9 "rs k"] by simp
  ultimately show ?thesis by blast
qed

theorem split_left_half_size_witness:
  "0 \<le> example_draws 0 \<and> example_draws 0 < 1 \<and>
   (\<exists>leftHalf st.
      split_deck 0 4 example_draws (example_heap, 0) = (leftHalf, st) \<and>
      0 < next_ref example_heap \<and>
      floor_random (example_draws 0) 9 = 3 \<and>
      0 \<le> int (length (cells example_heap 0)) div 2 + floor_random (example_draws 0) 9 - 4 \<and>
      int (length (cells example_heap 0)) div 2 + floor_random (example_draws 0) 9 - 4
        \<le> int (length (cells example_heap 0)) \<and>
      int (length (cells (hp st) leftHalf)) = 3 \<and> leftCount st = 3)"
proof -
  obtain leftHalf st where sp: "split_deck 0 4 example_draws (example_heap, 0) = (leftHalf, st)"
    by (cases "split_deck 0 4 example_draws (example_heap, 0)")
  have r: "0 \<le> example_draws 0" "example_draws 0 < 1" by (simp_all add: example_draws_def)
  have v: "0 < next_ref example_heap" by (simp add: example_heap_def)
  have u: "floor_random (example_draws 0) 9 = 3"
    by (simp add: example_draws_def floor_random_def floor_eq_iff)
  have lo: "0 \<le> int (length (cells example_heap 0)) div 2 + floor_random (example_draws 0) 9 - 4"
    and hi: "int (length (cells example_heap 0)) div 2 + floor_random (example_draws 0) 9 - 4
               \<le> int (length (cells example_heap 0))"
    by (simp_all add: u example_heap_def)
  from split_left_half_size [OF r sp v lo hi]
  have "int (length (cells (hp st) leftHalf)) = 3 \<and> leftCount st = 3"
    by (simp add: u example_heap_def)
  with sp r v u lo hi show ?thesis by blast
qed

subsection \<open>The number of passes of the interleave loop\<close>






subsection \<open>A split size out of range\<close>

lemma splice_nonpositive_count:
  "deleteCount \<le> 0 \<Longrightarrow> splice h a start deleteCount items = splice h a start 0 items"
  by (simp add: splice_def splice_list_def actualDeleteCount_def)

lemma repetition_without_left_half:
  assumes "split_deck deck splitError rs (h, k) = (leftHalf, st)" "\<not> 0 < leftCount st"
  shows "riffle_repetition deck splitError packetError rs (h, k) = Some (flush deck leftHalf st)"
proof -
  from assms(2) have "interleave deck leftHalf packetError rs st = Some st"
    by (subst interleave.simps) simp
  with assms(1) show ?thesis by (simp add: riffle_repetition_def)
qed

text \<open>
  C9, as the code has it. The computed split size is passed to \<open>splice\<close> as a delete
  count, and \<open>splice\<close> limits it to \<open>[0, deckLength]\<close>: the left half is the first
  \<open>c\<close> cards and the deck keeps the others, where \<open>c\<close> is
  \<open>floor (deckLength / 2) + U - splitError\<close> raised to \<open>0\<close> and lowered to the deck
  length. The lengths of the two parts add up to the deck length, and a repetition that
  finishes leaves the deck with its length.
\<close>

theorem split_size_clamped:
  assumes "split_deck deck splitError rs (h, k) = (leftHalf, st)"
    and "deck < next_ref h"
  shows "cells (hp st) leftHalf =
           take (nat (min (max (int (length (cells h deck)) div 2 + floor_random (rs k) 9 - splitError) 0)
                          (int (length (cells h deck)))))
                (cells h deck) \<and>
         cells (hp st) deck =
           drop (nat (min (max (int (length (cells h deck)) div 2 + floor_random (rs k) 9 - splitError) 0)
                          (int (length (cells h deck)))))
                (cells h deck) \<and>
         length (cells (hp st) leftHalf) + length (cells (hp st) deck) = length (cells h deck) \<and>
         (riffle_repetition deck splitError packetError rs (h, k) = Some (h', k') \<longrightarrow>
            length (cells h' deck) = length (cells h deck))"
proof -
  note c = split_deck_clamped [OF assms]
  have "length (cells (hp st) leftHalf) + length (cells (hp st) deck) = length (cells h deck)"
    by (simp only: c) simp
  moreover have "riffle_repetition deck splitError packetError rs (h, k) = Some (h', k') \<longrightarrow>
            length (cells h' deck) = length (cells h deck)"
    using riffle_repetition_props [OF _ assms(2)] by (blast dest: mset_eq_length)
  ultimately show ?thesis using c by blast
qed

theorem split_size_clamped_witness:
  "\<exists>leftHalf st h' k'.
     split_deck 0 4 (const_draws (1/10)) (two_card_heap, 0) = (leftHalf, st) \<and>
     0 < next_ref two_card_heap \<and>
     int (length (cells two_card_heap 0)) div 2 + floor_random (const_draws (1/10) 0) 9 - 4 = - 3 \<and>
     cells (hp st) leftHalf = [] \<and> cells (hp st) 0 = [1, 0] \<and>
     riffle_repetition 0 4 4 (const_draws (1/10)) (two_card_heap, 0) = Some (h', k') \<and>
     length (cells h' 0) = 2"
proof -
  obtain leftHalf st where sp: "split_deck 0 4 (const_draws (1/10)) (two_card_heap, 0) = (leftHalf, st)"
    by (cases "split_deck 0 4 (const_draws (1/10)) (two_card_heap, 0)")
  have v: "0 < next_ref two_card_heap" by (simp add: two_card_heap_def)
  have u: "int (length (cells two_card_heap 0)) div 2 + floor_random (const_draws (1/10) 0) 9 - 4 = - 3"
    by (simp add: two_card_heap_def const_draws_def floor_random_def)
  have "cells (hp st) leftHalf = []"
    using split_deck_clamped(1) [OF sp v] by (simp add: u)
  with split_deck_props(6) [OF sp v] have "\<not> 0 < leftCount st" by simp
  from repetition_without_left_half [OF sp this]
  obtain h' k' where
    r: "riffle_repetition 0 4 4 (const_draws (1/10)) (two_card_heap, 0) = Some (h', k')"
    by (cases "flush 0 leftHalf st") simp
  from split_size_clamped [OF sp v, of 4 h' k'] r
  have "cells (hp st) leftHalf = [] \<and> cells (hp st) 0 = [1, 0] \<and> length (cells h' 0) = 2"
    by (simp add: u) (simp add: two_card_heap_def)
  with sp v u r show ?thesis by blast
qed

text \<open>
  C9 as stated asks that a split size outside \<open>[0, deckLength]\<close> be detectable. On a
  two-card deck with \<open>splitError = 4\<close>, the draw \<open>1/10\<close> gives the split size \<open>-3\<close> and
  the draw \<open>2/5\<close> gives \<open>0\<close>; with the other draws equal, the two calls return the same
  store, the same reference and the same number of draws, so nothing tells them apart.
\<close>

theorem split_violation_not_detectable:
  "cutDeckVariant (length (cells two_card_heap 0)) (const_draws (1/10) 0) 4 = - 3 \<and>
   cutDeckVariant (length (cells two_card_heap 0)) (first_draw (2/5) (const_draws (1/10)) 0) 4 = 0 \<and>
   riffleShuffle two_card_heap 0 1 4 4 (const_draws (1/10)) 0 =
   riffleShuffle two_card_heap 0 1 4 4 (first_draw (2/5) (const_draws (1/10))) 0"
proof -
  let ?h0 = "fst (alloc two_card_heap (cells two_card_heap 0))"
  let ?deck = "next_ref two_card_heap"
  let ?rs1 = "const_draws (1/10)"
  let ?rs2 = "first_draw (2/5) (const_draws (1/10))"
  have len: "length (cells ?h0 ?deck) = 2" "length (cells two_card_heap 0) = 2"
    by (simp_all add: alloc_def two_card_heap_def)
  have c1: "cutDeckVariant 2 (?rs1 0) 4 = - 3"
    by (simp add: cutDeckVariant_def const_draws_def floor_random_def)
  have c2: "cutDeckVariant 2 (?rs2 0) 4 = 0"
    by (simp add: cutDeckVariant_def first_draw_def floor_random_def floor_eq_iff)
  have i1: "toIntegerOrInfinity (cutDeckVariant 2 (?rs1 0) 4) = - 3"
    unfolding c1 by (simp add: toIntegerOrInfinity_def)
  have i2: "toIntegerOrInfinity (cutDeckVariant 2 (?rs2 0) 4) = 0"
    unfolding c2 by (simp add: toIntegerOrInfinity_def)
  have cursor: "floor_random (?rs1 (0 + 1)) 4 = floor_random (?rs2 (0 + 1)) 4"
    by (simp add: first_draw_def)
  have same_split: "split_deck ?deck 4 ?rs1 (?h0, 0) = split_deck ?deck 4 ?rs2 (?h0, 0)"
    unfolding split_deck_unfold len i1 i2 cursor
    by (simp add: splice_nonpositive_count [of "- 3"])
  obtain leftHalf st where sp: "split_deck ?deck 4 ?rs1 (?h0, 0) = (leftHalf, st)"
    by (cases "split_deck ?deck 4 ?rs1 (?h0, 0)")
  have v: "?deck < next_ref ?h0" by (simp add: alloc_def)
  have "cells (hp st) leftHalf = []"
    using split_deck_contents(1) [OF sp v] unfolding len i1
    by (simp add: actualDeleteCount_def)
  with split_deck_props(6) [OF sp v] have stop: "\<not> 0 < leftCount st" by simp
  have "riffle_repetition ?deck 4 4 ?rs1 (?h0, 0) = Some (flush ?deck leftHalf st)"
    by (rule repetition_without_left_half [OF sp stop])
  moreover have "riffle_repetition ?deck 4 4 ?rs2 (?h0, 0) = Some (flush ?deck leftHalf st)"
    by (rule repetition_without_left_half [OF sp [unfolded same_split] stop])
  ultimately have "riffleShuffle two_card_heap 0 (Suc 0) 4 4 ?rs1 0 =
                   riffleShuffle two_card_heap 0 (Suc 0) 4 4 ?rs2 0"
    by (simp add: riffleShuffle_def alloc_def)
  with c1 c2 len show ?thesis by simp
qed

text \<open>
  C5: the code on a deck of eight cards, \<open>splitError = 4\<close>, \<open>packetError = 2\<close> and the
  draws \<open>0.4, 0.9, 0.5, 0.1, 0.5, 0.1, ...\<close>. The left half is the first three cards. In the
  first pass the packet size drawn is \<open>1\<close>, yet no card leaves the left half and the deck
  is unchanged, while \<open>leftCount\<close> falls to \<open>2\<close>; the call returns
  \<open>[0, 0, 1, 0, 0, 0, 0, 0]\<close>.
\<close>

theorem first_packet_is_empty:
  "(case split_deck 0 4 example_draws (example_heap, 0) of
      (leftHalf, st) \<Rightarrow>
        cells (hp st) leftHalf = [0, 0, 0] \<and> cells (hp st) 0 = [0, 0, 1, 0, 0] \<and>
        leftCount st = 3 \<and> rightCount st = 2 \<and>
        floor_random (example_draws (drawn st)) 2 = 1 \<and>
        fst (splice_list (cells (hp st) leftHalf) (leftCount st)
               (floor_random (example_draws (drawn st)) 2) []) = [] \<and>
        cells (hp (interleave_step 0 leftHalf 2 example_draws st)) leftHalf = [0, 0, 0] \<and>
        cells (hp (interleave_step 0 leftHalf 2 example_draws st)) 0 = [0, 0, 1, 0, 0] \<and>
        leftCount (interleave_step 0 leftHalf 2 example_draws st) = 2) \<and>
   (case riffleShuffle example_heap 0 1 4 2 example_draws 0 of
      None \<Rightarrow> False
    | Some (h', out, k') \<Rightarrow> cells h' out = [0, 0, 1, 0, 0, 0, 0, 0])"
  by code_simp

section \<open>Properties of fisherYatesShuffle\<close>

lemma fisherYates_loop_frame:
  "next_ref (fst (fisherYates_loop array rs n (h, k))) = next_ref h \<and>
   snd (fisherYates_loop array rs n (h, k)) = k + n \<and>
   (\<forall>r. r \<noteq> array \<longrightarrow> cells (fst (fisherYates_loop array rs n (h, k))) r = cells h r)"
  by (induction n arbitrary: h k) (simp_all add: Let_def)

lemma fisherYates_loop_length:
  "length (cells (fst (fisherYates_loop array rs n (h, k))) array) = length (cells h array)"
  by (induction n arbitrary: h k) (simp_all add: Let_def)

lemma fisherYates_loop_exchanges:
  "cells (fst (fisherYates_loop array rs n (h, k))) array =
     foldl (\<lambda>ys i. exchange ys i (nat (floor_random (rs (k + (n - i))) (int i + 1))))
       (cells h array) (rev [1..<Suc n])"
proof (induction n arbitrary: h k)
  case 0
  then show ?case by simp
next
  case (Suc n)
  let ?j = "nat (floor_random (rs k) (int (Suc n) + 1))"
  let ?xs = "cells h array"
  let ?h' = "h\<lparr>cells := (cells h)(array := ?xs[Suc n := ?xs ! ?j, ?j := ?xs ! Suc n])\<rparr>"
  have "cells (fst (fisherYates_loop array rs (Suc n) (h, k))) array =
        cells (fst (fisherYates_loop array rs n (?h', k + 1))) array"
    by (simp add: Let_def)
  also have "\<dots> = foldl (\<lambda>ys i. exchange ys i (nat (floor_random (rs (k + 1 + (n - i))) (int i + 1))))
       (exchange ?xs (Suc n) ?j) (rev [1..<Suc n])"
    by (simp only: Suc.IH) (simp add: exchange_def)
  also have "\<dots> = foldl (\<lambda>ys i. exchange ys i (nat (floor_random (rs (k + (Suc n - i))) (int i + 1))))
       (exchange ?xs (Suc n) ?j) (rev [1..<Suc n])"
  proof (rule foldl_cong [OF refl refl])
    fix ys i assume "i \<in> set (rev [1..<Suc n])"
    then have "k + 1 + (n - i) = k + (Suc n - i)" by auto
    then show "exchange ys i (nat (floor_random (rs (k + 1 + (n - i))) (int i + 1))) =
               exchange ys i (nat (floor_random (rs (k + (Suc n - i))) (int i + 1)))"
      by (simp only:)
  qed
  also have "\<dots> = foldl (\<lambda>ys i. exchange ys i (nat (floor_random (rs (k + (Suc n - i))) (int i + 1))))
       ?xs (rev [1..<Suc (Suc n)])"
    by simp
  finally show ?case .
qed

lemma fisherYatesShuffle_spec:
  "cells (fst (fisherYatesShuffle h array rs k)) array =
     fisherYates_spec (cells h array) (drawn_index rs k (length (cells h array)))"
proof -
  let ?len = "length (cells h array)"
  have "rev [1..<Suc (?len - 1)] = rev [1..<?len]"
    by (cases ?len) simp_all
  then show ?thesis
    using fisherYates_loop_exchanges [of array rs "?len - 1" h k]
    by (simp add: fisherYatesShuffle_def fisherYates_spec_def drawn_index_def split: prod.splits)
       (metis fst_conv)
qed


lemma fisherYatesShuffle_unfold:
  "fisherYatesShuffle h array rs k =
     (fst (fisherYates_loop array rs (length (cells h array) - 1) (h, k)), array,
      k + (length (cells h array) - 1))"
  using fisherYates_loop_frame [of array rs "length (cells h array) - 1" h k]
  by (auto simp: fisherYatesShuffle_def split: prod.splits)

lemma drawn_index_le:
  assumes "valid_draws rs"
  shows "nat (floor_random (rs k) (int i + 1)) \<le> i"
proof -
  from assms have "0 \<le> rs k" "rs k < 1" by (simp_all add: valid_draws_def)
  from floor_random_range [OF this, of "int i + 1"] show ?thesis by linarith
qed

lemma fisherYates_loop_mset:
  assumes "valid_draws rs"
  shows "n < length (cells h array) \<Longrightarrow>
         mset (cells (fst (fisherYates_loop array rs n (h, k))) array) = mset (cells h array)"
proof (induction n arbitrary: h k)
  case 0
  then show ?case by simp
next
  case (Suc n)
  let ?j = "nat (floor_random (rs k) (int (Suc n) + 1))"
  let ?xs = "cells h array"
  let ?h' = "h\<lparr>cells := (cells h)(array := ?xs[Suc n := ?xs ! ?j, ?j := ?xs ! Suc n])\<rparr>"
  from drawn_index_le [OF assms, of k "Suc n"] Suc.prems have j: "?j < length ?xs" by simp
  have "mset (cells (fst (fisherYates_loop array rs (Suc n) (h, k))) array) =
        mset (cells (fst (fisherYates_loop array rs n (?h', k + 1))) array)"
    by (simp add: Let_def)
  also have "\<dots> = mset (cells ?h' array)"
    using Suc.prems by (intro Suc.IH) simp
  also have "\<dots> = mset ?xs"
    using mset_swap [OF j Suc.prems] by simp
  finally show ?case .
qed

lemma fisherYatesShuffle_mset:
  assumes "valid_draws rs"
  shows "mset (cells (fst (fisherYatesShuffle h array rs k)) array) = mset (cells h array)"
proof (cases "cells h array")
  case Nil
  then show ?thesis by (simp add: fisherYatesShuffle_unfold)
next
  case (Cons x xs)
  then have "length (cells h array) - 1 < length (cells h array)" by simp
  from fisherYates_loop_mset [OF assms this] show ?thesis
    by (simp add: fisherYatesShuffle_unfold)
qed

lemma unordered_trial_props:
  assumes "unordered_trial rs (h, k, shuffledArrays) = Some (h', k', shuffledArrays')"
    and "unordered < next_ref h"
  shows "cells h' unordered = cells (fst (fisherYatesShuffle h unordered rs k)) unordered"
    and "next_ref h < next_ref h'"
    and "shuffledArrays' = shuffledArrays @ [next_ref h]"
    and "mset (cells h' (next_ref h)) = mset (cells h' unordered)"
    and "\<forall>r<next_ref h. r \<noteq> unordered \<longrightarrow> cells h' r = cells h r"
proof -
  let ?ha = "fst (fisherYates_loop unordered rs (length (cells h unordered) - 1) (h, k))"
  let ?ka = "k + (length (cells h unordered) - 1)"
  from assms(1) obtain out where
    r: "riffleShuffle ?ha unordered REPETITIONS SPLIT_ERROR PACKET_ERROR rs ?ka = Some (h', out, k')"
    and a: "shuffledArrays' = shuffledArrays @ [out]"
    by (auto simp: unordered_trial_def fisherYatesShuffle_unfold split: option.splits)
  note f = fisherYates_loop_frame [of unordered rs "length (cells h unordered) - 1" h k]
  note p = riffleShuffle_props [OF r]
  from f have nxt: "next_ref ?ha = next_ref h" by simp
  from p(3) assms(2) nxt show "cells h' unordered = cells (fst (fisherYatesShuffle h unordered rs k)) unordered"
    by (simp add: fisherYatesShuffle_unfold)
  from p(4) nxt show "next_ref h < next_ref h'" by simp
  from a p(1) nxt show "shuffledArrays' = shuffledArrays @ [next_ref h]" by simp
  from p(1,2,3) nxt assms(2) show "mset (cells h' (next_ref h)) = mset (cells h' unordered)" by simp
  from p(3) nxt f show "\<forall>r<next_ref h. r \<noteq> unordered \<longrightarrow> cells h' r = cells h r" by simp
qed

lemma unordered_trial_returns:
  assumes "\<forall>j. 1 \<le> floor_random (rs j) PACKET_ERROR"
  shows "\<exists>s'. unordered_trial rs s = Some s'"
proof -
  obtain h k a where s: "s = (h, k, a)" by (cases s) auto
  let ?ha = "fst (fisherYates_loop unordered rs (length (cells h unordered) - 1) (h, k))"
  let ?ka = "k + (length (cells h unordered) - 1)"
  from riffleShuffle_returns [OF assms] obtain h' out k' where
    "riffleShuffle ?ha unordered REPETITIONS SPLIT_ERROR PACKET_ERROR rs ?ka = Some (h', out, k')"
    by (metis prod.exhaust)
  then show ?thesis by (simp add: unordered_trial_def fisherYatesShuffle_unfold s)
qed

lemma simulate_unordered_returns:
  assumes "\<forall>j. 1 \<le> floor_random (rs j) PACKET_ERROR"
  shows "\<exists>s'. simulate_unordered n rs s = Some s'"
proof (induction n arbitrary: s)
  case 0
  show ?case by (cases s) auto
next
  case (Suc n)
  from unordered_trial_returns [OF assms] obtain s1 where "unordered_trial rs s = Some s1" by blast
  with Suc.IH [of s1] show ?case by simp
qed

lemma simulate_unordered_props:
  assumes "simulate_unordered n rs (h, k, shuffledArrays) = Some (h', k', shuffledArrays')"
    and "unordered < next_ref h"
  shows "length shuffledArrays' = length shuffledArrays + n \<and>
         (\<exists>ks. length ks = n \<and>
            cells h' unordered =
              foldl (\<lambda>xs k. fisherYates_spec xs (drawn_index rs k (length xs))) (cells h unordered) ks) \<and>
         (\<forall>r<next_ref h. r \<noteq> unordered \<longrightarrow> cells h' r = cells h r)"
  using assms
proof (induction n arbitrary: h k shuffledArrays)
  case 0
  then show ?case by simp
next
  case (Suc n)
  from Suc.prems(1) obtain h1 k1 a1 where
    one: "unordered_trial rs (h, k, shuffledArrays) = Some (h1, k1, a1)"
    and rest: "simulate_unordered n rs (h1, k1, a1) = Some (h', k', shuffledArrays')"
    by (auto split: option.splits)
  note p = unordered_trial_props [OF one Suc.prems(2)]
  from p(2) Suc.prems(2) have v: "unordered < next_ref h1" by simp
  from Suc.IH [OF rest v] obtain ks where
    len: "length shuffledArrays' = length a1 + n"
    and ks: "length ks = n"
      "cells h' unordered =
         foldl (\<lambda>xs k. fisherYates_spec xs (drawn_index rs k (length xs))) (cells h1 unordered) ks"
    and oth: "\<forall>r<next_ref h1. r \<noteq> unordered \<longrightarrow> cells h' r = cells h1 r"
    by blast
  have first: "cells h1 unordered =
      fisherYates_spec (cells h unordered) (drawn_index rs k (length (cells h unordered)))"
    using p(1) by (simp add: fisherYatesShuffle_spec)
  have "length shuffledArrays' = length shuffledArrays + Suc n"
    using len p(3) by simp
  moreover have "length (k # ks) = Suc n \<and>
      cells h' unordered =
        foldl (\<lambda>xs k. fisherYates_spec xs (drawn_index rs k (length xs))) (cells h unordered) (k # ks)"
    using ks first by simp
  moreover have "\<forall>r<next_ref h. r \<noteq> unordered \<longrightarrow> cells h' r = cells h r"
    using oth p(2,5) by auto
  ultimately show ?case by blast
qed

lemma initial_template_reordered:
  "cells (fst (fisherYatesShuffle initial_heap unordered (const_draws (1/2)) 0)) unordered \<noteq>
   cells initial_heap unordered"
  by code_simp


lemma simulate_unordered_mset:
  assumes "valid_draws rs"
  shows "simulate_unordered n rs (h, k, shuffledArrays) = Some (h', k', shuffledArrays') \<Longrightarrow>
         unordered < next_ref h \<Longrightarrow>
         mset (cells h' unordered) = mset (cells h unordered)"
proof (induction n arbitrary: h k shuffledArrays)
  case 0
  then show ?case by simp
next
  case (Suc n)
  from Suc.prems(1) obtain h1 k1 a1 where
    one: "unordered_trial rs (h, k, shuffledArrays) = Some (h1, k1, a1)"
    and rest: "simulate_unordered n rs (h1, k1, a1) = Some (h', k', shuffledArrays')"
    by (auto split: option.splits)
  note p = unordered_trial_props [OF one Suc.prems(2)]
  from p(2) Suc.prems(2) have "unordered < next_ref h1" by simp
  from Suc.IH [OF rest this] have "mset (cells h' unordered) = mset (cells h1 unordered)" .
  also from p(1) fisherYatesShuffle_mset [OF assms, of h unordered k]
  have "mset (cells h1 unordered) = mset (cells h unordered)" by simp
  finally show ?case .
qed

lemma simulate_unordered_snoc:
  "simulate_unordered (Suc n) rs s =
     (case simulate_unordered n rs s of None \<Rightarrow> None | Some s' \<Rightarrow> unordered_trial rs s')"
proof (induction n arbitrary: s)
  case 0
  then show ?case by (simp split: option.splits)
next
  case (Suc n)
  show ?case
  proof (cases "unordered_trial rs s")
    case None
    then show ?thesis by simp
  next
    case (Some s1)
    have "simulate_unordered (Suc (Suc n)) rs s = simulate_unordered (Suc n) rs s1"
      using Some by simp
    also have "\<dots> = (case simulate_unordered n rs s1 of None \<Rightarrow> None | Some s' \<Rightarrow> unordered_trial rs s')"
      by (rule Suc.IH)
    also have "simulate_unordered n rs s1 = simulate_unordered (Suc n) rs s"
      using Some by simp
    finally show ?thesis .
  qed
qed

lemma simulate_unordered_next_ref:
  "simulate_unordered n rs (h, k, shuffledArrays) = Some (h', k', shuffledArrays') \<Longrightarrow>
   unordered < next_ref h \<Longrightarrow> next_ref h \<le> next_ref h'"
proof (induction n arbitrary: h k shuffledArrays)
  case 0
  then show ?case by simp
next
  case (Suc n)
  from Suc.prems(1) obtain h1 k1 a1 where
    one: "unordered_trial rs (h, k, shuffledArrays) = Some (h1, k1, a1)"
    and rest: "simulate_unordered n rs (h1, k1, a1) = Some (h', k', shuffledArrays')"
    by (auto split: option.splits)
  note p = unordered_trial_props [OF one Suc.prems(2)]
  from p(2) Suc.prems(2) have "unordered < next_ref h1" by simp
  from Suc.IH [OF rest this] p(2) show ?case by simp
qed

lemma unordered_trial_steps:
  assumes "unordered_trial rs (h, k, shuffledArrays) = Some (h', k', shuffledArrays')"
  shows "\<exists>hrand randomizedUnordered krand.
     fisherYatesShuffle h unordered rs k = (hrand, randomizedUnordered, krand) \<and>
     randomizedUnordered = unordered \<and>
     krand = k + (length (cells h unordered) - 1) \<and>
     cells hrand unordered =
       fisherYates_spec (cells h unordered) (drawn_index rs k (length (cells h unordered))) \<and>
     next_ref hrand = next_ref h \<and>
     riffleShuffle hrand randomizedUnordered REPETITIONS SPLIT_ERROR PACKET_ERROR rs krand =
       Some (h', last shuffledArrays', k') \<and>
     shuffledArrays' = shuffledArrays @ [last shuffledArrays'] \<and>
     mset (cells h' (last shuffledArrays')) = mset (cells hrand unordered) \<and>
     (unordered < next_ref h \<longrightarrow> cells h' unordered = cells hrand unordered)"
proof -
  let ?hrand = "fst (fisherYates_loop unordered rs (length (cells h unordered) - 1) (h, k))"
  let ?krand = "k + (length (cells h unordered) - 1)"
  have fy: "fisherYatesShuffle h unordered rs k = (?hrand, unordered, ?krand)"
    by (rule fisherYatesShuffle_unfold)
  from assms obtain out where
    r: "riffleShuffle ?hrand unordered REPETITIONS SPLIT_ERROR PACKET_ERROR rs ?krand = Some (h', out, k')"
    and a: "shuffledArrays' = shuffledArrays @ [out]"
    by (auto simp: unordered_trial_def fisherYatesShuffle_unfold split: option.splits)
  note p = riffleShuffle_props [OF r]
  note f = fisherYates_loop_frame [of unordered rs "length (cells h unordered) - 1" h k]
  from a have l: "last shuffledArrays' = out" by simp
  have sp: "cells ?hrand unordered =
       fisherYates_spec (cells h unordered) (drawn_index rs k (length (cells h unordered)))"
    using fisherYatesShuffle_spec [of h unordered rs k] by (simp add: fy)
  have nx: "next_ref ?hrand = next_ref h" using f by simp
  have "unordered < next_ref h \<longrightarrow> cells h' unordered = cells ?hrand unordered"
    using p(3) nx by simp
  with fy sp nx r a l p(2) show ?thesis by simp
qed

text \<open>
  C8. \<open>fisherYatesShuffle\<close> is the algorithm the specification words: it visits the
  positions from the last index down to index \<open>1\<close>, makes one draw per position, and at
  position \<open>i\<close> exchanges the elements at \<open>i\<close> and at the drawn index, which lies in
  \<open>[0, i]\<close> and takes each value \<open>j\<close> exactly for the draws in
  \<open>[j / (i + 1), (j + 1) / (i + 1))\<close>. The simulation runs it in every trial, before the
  shuffle of that trial: trial \<open>n + 1\<close> starts from the store, the draw position and the
  list the first \<open>n\<close> trials left, first runs one pass on the template \<open>unordered\<close>,
  then calls \<open>riffleShuffle\<close> on the array the pass returned, in the store the pass left
  and with the draws that follow those of the pass, and pushes the result, a permutation
  of the deck just randomized. After \<open>n\<close> trials there are \<open>n\<close> more shuffled decks and
  the template has gone through \<open>n\<close> passes.
\<close>

theorem fisherYates_every_trial:
  "cells (fst (fisherYatesShuffle h array rs k)) array =
     fisherYates_spec (cells h array) (drawn_index rs k (length (cells h array))) \<and>
   snd (snd (fisherYatesShuffle h array rs k)) = k + (length (cells h array) - 1) \<and>
   (valid_draws rs \<longrightarrow> (\<forall>i. drawn_index rs k (length (cells h array)) i \<le> i)) \<and>
   (\<forall>j. floor_random r (int i + 1) = j \<longleftrightarrow>
          of_int j / (of_int (int i + 1)) \<le> r \<and> r < (of_int j + 1) / (of_int (int i + 1))) \<and>
   (simulate_unordered n rs (h, k, shuffledArrays) = Some (h', k', shuffledArrays') \<and>
      unordered < next_ref h \<longrightarrow>
        length shuffledArrays' = length shuffledArrays + n \<and>
        (\<exists>ks. length ks = n \<and>
           cells h' unordered =
             foldl (\<lambda>xs k. fisherYates_spec xs (drawn_index rs k (length xs))) (cells h unordered) ks)) \<and>
   (simulate_unordered (Suc n) rs (h, k, shuffledArrays) = Some (hafter, kafter, shuffledAfter) \<and>
      unordered < next_ref h \<longrightarrow>
        (\<exists>hbefore kbefore shuffledBefore hrand randomizedUnordered krand.
           simulate_unordered n rs (h, k, shuffledArrays) = Some (hbefore, kbefore, shuffledBefore) \<and>
           fisherYatesShuffle hbefore unordered rs kbefore = (hrand, randomizedUnordered, krand) \<and>
           randomizedUnordered = unordered \<and>
           krand = kbefore + (length (cells hbefore unordered) - 1) \<and>
           cells hrand unordered =
             fisherYates_spec (cells hbefore unordered)
               (drawn_index rs kbefore (length (cells hbefore unordered))) \<and>
           riffleShuffle hrand randomizedUnordered REPETITIONS SPLIT_ERROR PACKET_ERROR rs krand =
             Some (hafter, last shuffledAfter, kafter) \<and>
           shuffledAfter = shuffledBefore @ [last shuffledAfter] \<and>
           mset (cells hafter (last shuffledAfter)) = mset (cells hrand unordered) \<and>
           cells hafter unordered = cells hrand unordered))"
proof (intro conjI impI allI)
  show "cells (fst (fisherYatesShuffle h array rs k)) array =
     fisherYates_spec (cells h array) (drawn_index rs k (length (cells h array)))"
    by (rule fisherYatesShuffle_spec)
  show "snd (snd (fisherYatesShuffle h array rs k)) = k + (length (cells h array) - 1)"
    by (simp add: fisherYatesShuffle_unfold)
  show "drawn_index rs k (length (cells h array)) i \<le> i" if "valid_draws rs" for i
    unfolding drawn_index_def by (rule drawn_index_le [OF that])
  show "floor_random r (int i + 1) = j \<longleftrightarrow>
          of_int j / (of_int (int i + 1)) \<le> r \<and> r < (of_int j + 1) / (of_int (int i + 1))" for j
    by (rule floor_random_interval) simp
next
  assume a: "simulate_unordered n rs (h, k, shuffledArrays) = Some (h', k', shuffledArrays') \<and>
      unordered < next_ref h"
  note p = simulate_unordered_props [OF conjunct1 [OF a] conjunct2 [OF a]]
  from p show "length shuffledArrays' = length shuffledArrays + n" by blast
  from p show "\<exists>ks. length ks = n \<and>
           cells h' unordered =
             foldl (\<lambda>xs k. fisherYates_spec xs (drawn_index rs k (length xs))) (cells h unordered) ks"
    by blast
next
  assume a: "simulate_unordered (Suc n) rs (h, k, shuffledArrays) = Some (hafter, kafter, shuffledAfter) \<and>
      unordered < next_ref h"
  then obtain hbefore kbefore shuffledBefore where
    before: "simulate_unordered n rs (h, k, shuffledArrays) = Some (hbefore, kbefore, shuffledBefore)"
    and trial: "unordered_trial rs (hbefore, kbefore, shuffledBefore) = Some (hafter, kafter, shuffledAfter)"
    unfolding simulate_unordered_snoc by (auto split: option.splits)
  from simulate_unordered_next_ref [OF before] a have "unordered < next_ref hbefore" by simp
  with unordered_trial_steps [OF trial] before
  show "\<exists>hbefore kbefore shuffledBefore hrand randomizedUnordered krand.
           simulate_unordered n rs (h, k, shuffledArrays) = Some (hbefore, kbefore, shuffledBefore) \<and>
           fisherYatesShuffle hbefore unordered rs kbefore = (hrand, randomizedUnordered, krand) \<and>
           randomizedUnordered = unordered \<and>
           krand = kbefore + (length (cells hbefore unordered) - 1) \<and>
           cells hrand unordered =
             fisherYates_spec (cells hbefore unordered)
               (drawn_index rs kbefore (length (cells hbefore unordered))) \<and>
           riffleShuffle hrand randomizedUnordered REPETITIONS SPLIT_ERROR PACKET_ERROR rs krand =
             Some (hafter, last shuffledAfter, kafter) \<and>
           shuffledAfter = shuffledBefore @ [last shuffledAfter] \<and>
           mset (cells hafter (last shuffledAfter)) = mset (cells hrand unordered) \<and>
           cells hafter unordered = cells hrand unordered"
    by blast
qed

theorem fisherYates_every_trial_witness:
  "valid_draws (const_draws (1/2)) \<and>
   (\<forall>i. drawn_index (const_draws (1/2)) 0 (length (cells initial_heap unordered)) i \<le> i) \<and>
   unordered < next_ref initial_heap \<and>
   (\<exists>h' k' shuffledArrays'.
      simulate_unordered 2 (const_draws (1/2)) (initial_heap, 0, []) = Some (h', k', shuffledArrays') \<and>
      length shuffledArrays' = 2 \<and>
      (\<exists>ks. length ks = 2 \<and>
         cells h' unordered =
           foldl (\<lambda>xs k. fisherYates_spec xs (drawn_index (const_draws (1/2)) k (length xs)))
             (cells initial_heap unordered) ks) \<and>
      (\<exists>hbefore kbefore shuffledBefore hrand krand.
         simulate_unordered 1 (const_draws (1/2)) (initial_heap, 0, []) =
           Some (hbefore, kbefore, shuffledBefore) \<and>
         fisherYatesShuffle hbefore unordered (const_draws (1/2)) kbefore = (hrand, unordered, krand) \<and>
         krand = kbefore + 49 \<and>
         riffleShuffle hrand unordered REPETITIONS SPLIT_ERROR PACKET_ERROR (const_draws (1/2)) krand =
           Some (h', last shuffledArrays', k') \<and>
         shuffledArrays' = shuffledBefore @ [last shuffledArrays'] \<and>
         mset (cells h' (last shuffledArrays')) = mset (cells hrand unordered) \<and>
         cells h' unordered = cells hrand unordered))"
proof -
  have vd: "valid_draws (const_draws (1/2))"
    by (simp add: valid_draws_def const_draws_def)
  have d: "\<forall>j. 1 \<le> floor_random (const_draws (1/2) j) PACKET_ERROR"
    by (simp add: const_draws_def floor_random_def PACKET_ERROR_def)
  have v: "unordered < next_ref initial_heap"
    by (simp add: initial_heap_def unordered_def)
  from simulate_unordered_returns [OF d] obtain h' k' a' where
    s: "simulate_unordered 2 (const_draws (1/2)) (initial_heap, 0, []) = Some (h', k', a')"
    by (metis prod.exhaust)
  then have s': "simulate_unordered (Suc 1) (const_draws (1/2)) (initial_heap, 0, []) = Some (h', k', a')"
    by (simp add: numeral_2_eq_2)
  note t = fisherYates_every_trial [where rs = "const_draws (1/2)" and h = initial_heap and k = 0
      and array = unordered and shuffledArrays = "[]"]
  from t vd have 1: "\<forall>i. drawn_index (const_draws (1/2)) 0 (length (cells initial_heap unordered)) i \<le> i"
    by blast
  from t [where n = 2 and h' = h' and k' = k' and shuffledArrays' = a'] s v
  have 2: "length a' = 2 \<and>
      (\<exists>ks. length ks = 2 \<and>
         cells h' unordered =
           foldl (\<lambda>xs k. fisherYates_spec xs (drawn_index (const_draws (1/2)) k (length xs)))
             (cells initial_heap unordered) ks)"
    by simp
  from t [where n = 1 and hafter = h' and kafter = k' and shuffledAfter = a'] s' v
  obtain hbefore kbefore shuffledBefore hrand krand where
    b: "simulate_unordered 1 (const_draws (1/2)) (initial_heap, 0, []) =
           Some (hbefore, kbefore, shuffledBefore)"
      "fisherYatesShuffle hbefore unordered (const_draws (1/2)) kbefore = (hrand, unordered, krand)"
      "krand = kbefore + (length (cells hbefore unordered) - 1)"
      "riffleShuffle hrand unordered REPETITIONS SPLIT_ERROR PACKET_ERROR (const_draws (1/2)) krand =
           Some (h', last a', k')"
      "a' = shuffledBefore @ [last a']"
      "mset (cells h' (last a')) = mset (cells hrand unordered)"
      "cells h' unordered = cells hrand unordered"
    by blast
  have "mset (cells hbefore unordered) = mset (cells initial_heap unordered)"
    by (rule simulate_unordered_mset [OF vd b(1) v])
  then have "length (cells hbefore unordered) = length (cells initial_heap unordered)"
    by (rule mset_eq_length)
  then have "length (cells hbefore unordered) = 50"
    by (simp add: initial_heap_def unordered_def bottomStacked_def piled_def)
  with b(3) have "krand = kbefore + 49" by simp
  with vd 1 v s 2 b show ?thesis by blast
qed

text \<open>
  C10. \<open>fisherYatesShuffle\<close> returns the reference it was given and creates no array: it
  rewrites the contents of its argument, leaves every other array alone, and with draws in
  \<open>[0, 1)\<close> the new contents are a permutation of the old. In a trial of the
  randomized-seed loop the array passed is the global \<open>unordered\<close> itself, so after the
  trial the template holds the reordered deck, and after any number of trials it still has
  the same multiset of markers. With every draw equal to \<open>1/2\<close> the first trial already
  leaves the template in another order.
\<close>

theorem fisherYates_in_place:
  "(fisherYatesShuffle h array rs k = (h', out, k') \<longrightarrow>
      out = array \<and> next_ref h' = next_ref h \<and>
      (\<forall>r. r \<noteq> array \<longrightarrow> cells h' r = cells h r) \<and>
      (valid_draws rs \<longrightarrow> mset (cells h' array) = mset (cells h array))) \<and>
   (unordered_trial rs (h, k, shuffledArrays) = Some (ht, kt, shuffledArraysT) \<and>
      unordered < next_ref h \<longrightarrow>
        cells ht unordered = cells (fst (fisherYatesShuffle h unordered rs k)) unordered \<and>
        last shuffledArraysT \<noteq> unordered) \<and>
   (simulate_unordered n rs (h, k, shuffledArrays) = Some (h'', k'', shuffledArrays'') \<and>
      unordered < next_ref h \<and> valid_draws rs \<longrightarrow>
        mset (cells h'' unordered) = mset (cells h unordered)) \<and>
   (\<exists>hu ku shuffledArraysU.
      unordered_trial (const_draws (1/2)) (initial_heap, 0, []) = Some (hu, ku, shuffledArraysU) \<and>
      cells hu unordered \<noteq> cells initial_heap unordered)"
proof (intro conjI impI)
  assume a: "fisherYatesShuffle h array rs k = (h', out, k')"
  then have h': "h' = fst (fisherYates_loop array rs (length (cells h array) - 1) (h, k))"
    and out: "out = array"
    by (auto simp: fisherYatesShuffle_unfold)
  note f = fisherYates_loop_frame [of array rs "length (cells h array) - 1" h k]
  show "out = array" by (rule out)
  from f show "next_ref h' = next_ref h" by (simp add: h')
  from f show "\<forall>r. r \<noteq> array \<longrightarrow> cells h' r = cells h r" by (simp add: h')
  show "mset (cells h' array) = mset (cells h array)" if "valid_draws rs"
    using fisherYatesShuffle_mset [OF that, of h array k] a by simp
next
  assume a: "unordered_trial rs (h, k, shuffledArrays) = Some (ht, kt, shuffledArraysT) \<and>
      unordered < next_ref h"
  note p = unordered_trial_props [OF conjunct1 [OF a] conjunct2 [OF a]]
  show "cells ht unordered = cells (fst (fisherYatesShuffle h unordered rs k)) unordered"
    by (rule p(1))
  from p(3) a show "last shuffledArraysT \<noteq> unordered" by simp
next
  assume a: "simulate_unordered n rs (h, k, shuffledArrays) = Some (h'', k'', shuffledArrays'') \<and>
      unordered < next_ref h \<and> valid_draws rs"
  then show "mset (cells h'' unordered) = mset (cells h unordered)"
    by (intro simulate_unordered_mset [where rs = rs and n = n and k = k]) blast+
next
  have d: "\<forall>j. 1 \<le> floor_random (const_draws (1/2) j) PACKET_ERROR"
    by (simp add: const_draws_def floor_random_def PACKET_ERROR_def)
  have v: "unordered < next_ref initial_heap"
    by (simp add: initial_heap_def unordered_def)
  from unordered_trial_returns [OF d] obtain hu ku au where
    t: "unordered_trial (const_draws (1/2)) (initial_heap, 0, []) = Some (hu, ku, au)"
    by (metis prod.exhaust)
  from unordered_trial_props(1) [OF t v] initial_template_reordered
  have "cells hu unordered \<noteq> cells initial_heap unordered" by simp
  with t show "\<exists>hu ku shuffledArraysU.
      unordered_trial (const_draws (1/2)) (initial_heap, 0, []) = Some (hu, ku, shuffledArraysU) \<and>
      cells hu unordered \<noteq> cells initial_heap unordered"
    by blast
qed

theorem fisherYates_in_place_witness:
  "valid_draws (const_draws (1/2)) \<and> unordered < next_ref initial_heap \<and>
   (\<exists>h' out k'.
      fisherYatesShuffle initial_heap unordered (const_draws (1/2)) 0 = (h', out, k') \<and>
      out = unordered \<and> next_ref h' = next_ref initial_heap \<and>
      cells h' bottomStacked = cells initial_heap bottomStacked \<and>
      mset (cells h' unordered) = mset (cells initial_heap unordered)) \<and>
   (\<exists>ht kt shuffledArraysT.
      unordered_trial (const_draws (1/2)) (initial_heap, 0, []) = Some (ht, kt, shuffledArraysT) \<and>
      cells ht unordered = cells (fst (fisherYatesShuffle initial_heap unordered (const_draws (1/2)) 0)) unordered \<and>
      last shuffledArraysT \<noteq> unordered) \<and>
   (\<exists>h'' k'' shuffledArrays''.
      simulate_unordered 3 (const_draws (1/2)) (initial_heap, 0, []) = Some (h'', k'', shuffledArrays'') \<and>
      mset (cells h'' unordered) = mset (cells initial_heap unordered))"
proof -
  have vd: "valid_draws (const_draws (1/2))"
    by (simp add: valid_draws_def const_draws_def)
  have d: "\<forall>j. 1 \<le> floor_random (const_draws (1/2) j) PACKET_ERROR"
    by (simp add: const_draws_def floor_random_def PACKET_ERROR_def)
  have v: "unordered < next_ref initial_heap"
    by (simp add: initial_heap_def unordered_def)
  have ne: "bottomStacked \<noteq> unordered"
    by (simp add: bottomStacked_def unordered_def)
  obtain h' out k' where
    f: "fisherYatesShuffle initial_heap unordered (const_draws (1/2)) 0 = (h', out, k')"
    by (metis prod.exhaust)
  from unordered_trial_returns [OF d] obtain ht kt aT where
    t: "unordered_trial (const_draws (1/2)) (initial_heap, 0, []) = Some (ht, kt, aT)"
    by (metis prod.exhaust)
  from simulate_unordered_returns [OF d] obtain h'' k'' a'' where
    s: "simulate_unordered 3 (const_draws (1/2)) (initial_heap, 0, []) = Some (h'', k'', a'')"
    by (metis prod.exhaust)
  note inst = fisherYates_in_place [where rs = "const_draws (1/2)" and h = initial_heap and k = 0
      and array = unordered and h' = h' and out = out and k' = k'
      and shuffledArrays = "[]" and ht = ht and kt = kt and shuffledArraysT = aT
      and n = 3 and h'' = h'' and k'' = k'' and shuffledArrays'' = a'']
  from inst f vd ne have 1: "out = unordered \<and> next_ref h' = next_ref initial_heap \<and>
      cells h' bottomStacked = cells initial_heap bottomStacked \<and>
      mset (cells h' unordered) = mset (cells initial_heap unordered)"
    by blast
  from inst t v have 2: "cells ht unordered =
      cells (fst (fisherYatesShuffle initial_heap unordered (const_draws (1/2)) 0)) unordered \<and>
      last aT \<noteq> unordered"
    by blast
  from inst s v vd have 3: "mset (cells h'' unordered) = mset (cells initial_heap unordered)"
    by blast
  from vd v f 1 t 2 s 3 show ?thesis by blast
qed

section \<open>The input array and the fixed templates\<close>

lemma fixed_trial_props:
  assumes "fixed_trial template rs (h, k, shuffledArrays) = Some (h', k', shuffledArrays')"
  shows "\<forall>r<next_ref h. cells h' r = cells h r" "next_ref h < next_ref h'"
    "shuffledArrays' = shuffledArrays @ [next_ref h]"
    "mset (cells h' (next_ref h)) = mset (cells h template)"
proof -
  from assms obtain out where
    r: "riffleShuffle h template REPETITIONS SPLIT_ERROR PACKET_ERROR rs k = Some (h', out, k')"
    and a: "shuffledArrays' = shuffledArrays @ [out]"
    by (auto simp: fixed_trial_def split: option.splits)
  note p = riffleShuffle_props [OF r]
  show "\<forall>r<next_ref h. cells h' r = cells h r" by (rule p(3))
  show "next_ref h < next_ref h'" by (rule p(4))
  show "shuffledArrays' = shuffledArrays @ [next_ref h]" using a p(1) by simp
  show "mset (cells h' (next_ref h)) = mset (cells h template)" using p(1,2) by simp
qed

lemma simulate_fixed_props:
  assumes "simulate_fixed n template rs (h, k, shuffledArrays) = Some (h', k', shuffledArrays')"
  shows "(\<forall>r<next_ref h. cells h' r = cells h r) \<and> next_ref h \<le> next_ref h' \<and>
         length shuffledArrays' = length shuffledArrays + n"
  using assms
proof (induction n arbitrary: h k shuffledArrays)
  case 0
  then show ?case by simp
next
  case (Suc n)
  from Suc.prems obtain h1 k1 a1 where
    one: "fixed_trial template rs (h, k, shuffledArrays) = Some (h1, k1, a1)"
    and rest: "simulate_fixed n template rs (h1, k1, a1) = Some (h', k', shuffledArrays')"
    by (auto split: option.splits)
  note p1 = fixed_trial_props [OF one]
  note p2 = Suc.IH [OF rest]
  from p1 p2 show ?case by auto
qed

lemma fixed_trial_returns:
  assumes "\<forall>j. 1 \<le> floor_random (rs j) PACKET_ERROR"
  shows "\<exists>s'. fixed_trial template rs s = Some s'"
proof -
  obtain h k a where s: "s = (h, k, a)" by (cases s) auto
  from riffleShuffle_returns [OF assms] obtain h' out k' where
    "riffleShuffle h template REPETITIONS SPLIT_ERROR PACKET_ERROR rs k = Some (h', out, k')"
    by (metis prod.exhaust)
  then show ?thesis by (simp add: fixed_trial_def s)
qed

lemma simulate_fixed_returns:
  assumes "\<forall>j. 1 \<le> floor_random (rs j) PACKET_ERROR"
  shows "\<exists>s'. simulate_fixed n template rs s = Some s'"
proof (induction n arbitrary: s)
  case 0
  show ?case by (cases s) auto
next
  case (Suc n)
  from fixed_trial_returns [OF assms] obtain s1 where "fixed_trial template rs s = Some s1" by blast
  with Suc.IH [of s1] show ?case by simp
qed

text \<open>
  C6. \<open>riffleShuffle\<close> works on a copy: a call that returns leaves the array it was
  given, and every other array that existed before the call, with the contents it had, and
  returns a different array. So after any number of trials of a fixed-seed loop the
  template (\<open>bottomStacked\<close> or \<open>piled\<close>) holds the deck it held before the first
  trial, and every trial shuffles a copy of that same deck. The randomized-seed loop, which
  runs first, rewrites \<open>unordered\<close> only.
\<close>

theorem riffleShuffle_leaves_input:
  "(riffleShuffle h deckInput repetitions splitError packetError rs k = Some (h', out, k') \<and>
      deckInput < next_ref h \<longrightarrow>
        cells h' deckInput = cells h deckInput \<and> out \<noteq> deckInput \<and>
        (\<forall>r<next_ref h. cells h' r = cells h r)) \<and>
   (simulate_fixed n template rs (h, k, shuffledArrays) = Some (h'', k'', shuffledArrays'') \<and>
      template < next_ref h \<longrightarrow>
        cells h'' template = cells h template) \<and>
   (fixed_trial template rs (h, k, shuffledArrays) = Some (ht, kt, shuffledArraysT) \<and>
      template < next_ref h \<longrightarrow>
        cells ht template = cells h template \<and>
        mset (cells ht (last shuffledArraysT)) = mset (cells h template)) \<and>
   (simulate_unordered n rs (h, k, shuffledArrays) = Some (hu, ku, shuffledArraysU) \<and>
      unordered < next_ref h \<and> template < next_ref h \<and> template \<noteq> unordered \<longrightarrow>
        cells hu template = cells h template)"
proof (intro conjI impI)
  assume a: "riffleShuffle h deckInput repetitions splitError packetError rs k = Some (h', out, k') \<and>
      deckInput < next_ref h"
  note p = riffleShuffle_props [OF conjunct1 [OF a]]
  from p(3) a show "cells h' deckInput = cells h deckInput" by simp
  from p(1) a show "out \<noteq> deckInput" by simp
  from p(3) show "\<forall>r<next_ref h. cells h' r = cells h r" .
next
  assume a: "simulate_fixed n template rs (h, k, shuffledArrays) = Some (h'', k'', shuffledArrays'') \<and>
      template < next_ref h"
  from simulate_fixed_props [OF conjunct1 [OF a]] a
  show "cells h'' template = cells h template" by simp
next
  assume a: "fixed_trial template rs (h, k, shuffledArrays) = Some (ht, kt, shuffledArraysT) \<and>
      template < next_ref h"
  note p = fixed_trial_props [OF conjunct1 [OF a]]
  from p(1) a show "cells ht template = cells h template" by simp
  from p(3,4) show "mset (cells ht (last shuffledArraysT)) = mset (cells h template)" by simp
next
  assume a: "simulate_unordered n rs (h, k, shuffledArrays) = Some (hu, ku, shuffledArraysU) \<and>
      unordered < next_ref h \<and> template < next_ref h \<and> template \<noteq> unordered"
  then have "simulate_unordered n rs (h, k, shuffledArrays) = Some (hu, ku, shuffledArraysU)"
    and "unordered < next_ref h" by blast+
  from simulate_unordered_props [OF this] a
  show "cells hu template = cells h template" by blast
qed

theorem riffleShuffle_leaves_input_witness:
  "(\<exists>h' out k'.
      riffleShuffle initial_heap bottomStacked REPETITIONS SPLIT_ERROR PACKET_ERROR (const_draws (1/2)) 0
        = Some (h', out, k') \<and>
      bottomStacked < next_ref initial_heap \<and>
      cells h' bottomStacked = cells initial_heap bottomStacked \<and> out \<noteq> bottomStacked) \<and>
   (\<exists>h'' k'' shuffledArrays''.
      simulate_fixed 3 piled (const_draws (1/2)) (initial_heap, 0, []) = Some (h'', k'', shuffledArrays'') \<and>
      piled < next_ref initial_heap \<and>
      cells h'' piled = cells initial_heap piled) \<and>
   (\<exists>h1 k1 shuffledArraysT.
      fixed_trial piled (const_draws (1/2)) (initial_heap, 0, []) = Some (h1, k1, shuffledArraysT) \<and>
      cells h1 piled = cells initial_heap piled \<and>
      mset (cells h1 (last shuffledArraysT)) = mset (cells initial_heap piled)) \<and>
   (\<exists>hu ku shuffledArraysU.
      simulate_unordered 3 (const_draws (1/2)) (initial_heap, 0, []) = Some (hu, ku, shuffledArraysU) \<and>
      unordered < next_ref initial_heap \<and> piled \<noteq> unordered \<and>
      cells hu piled = cells initial_heap piled)"
proof -
  have d: "\<forall>j. 1 \<le> floor_random (const_draws (1/2) j) PACKET_ERROR"
    by (simp add: const_draws_def floor_random_def PACKET_ERROR_def)
  have v: "bottomStacked < next_ref initial_heap" "piled < next_ref initial_heap"
    by (simp_all add: initial_heap_def bottomStacked_def piled_def)
  from riffleShuffle_returns [OF d] obtain h' out k' where
    r: "riffleShuffle initial_heap bottomStacked REPETITIONS SPLIT_ERROR PACKET_ERROR (const_draws (1/2)) 0
        = Some (h', out, k')"
    by (metis prod.exhaust)
  from simulate_fixed_returns [OF d] obtain h'' k'' a'' where
    s: "simulate_fixed 3 piled (const_draws (1/2)) (initial_heap, 0, []) = Some (h'', k'', a'')"
    by (metis prod.exhaust)
  from fixed_trial_returns [OF d] obtain h1 k1 a1 where
    t: "fixed_trial piled (const_draws (1/2)) (initial_heap, 0, []) = Some (h1, k1, a1)"
    by (metis prod.exhaust)
  from simulate_unordered_returns [OF d] obtain hu ku au where
    su: "simulate_unordered 3 (const_draws (1/2)) (initial_heap, 0, []) = Some (hu, ku, au)"
    by (metis prod.exhaust)
  have vu: "unordered < next_ref initial_heap" "piled \<noteq> unordered"
    by (simp_all add: initial_heap_def unordered_def piled_def)
  from riffleShuffle_leaves_input [of initial_heap bottomStacked REPETITIONS SPLIT_ERROR PACKET_ERROR
      "const_draws (1/2)" 0 h' out k'] r v
  have 1: "cells h' bottomStacked = cells initial_heap bottomStacked \<and> out \<noteq> bottomStacked"
    by blast
  from riffleShuffle_leaves_input [where n = 3 and template = piled and rs = "const_draws (1/2)"
      and h = initial_heap and k = 0 and shuffledArrays = "[]" and h'' = h'' and k'' = k''
      and shuffledArrays'' = a'' and ht = h1 and kt = k1 and shuffledArraysT = a1
      and hu = hu and ku = ku and shuffledArraysU = au] s t v su vu
  have 2: "cells h'' piled = cells initial_heap piled"
    and 3: "cells h1 piled = cells initial_heap piled \<and>
      mset (cells h1 (last a1)) = mset (cells initial_heap piled)"
    and 4: "cells hu piled = cells initial_heap piled"
    by blast+
  from r v 1 s 2 t 3 su vu 4 show ?thesis by blast
qed

end
